theory Spec2Isabelle
  imports Complex_Main "HOL-Library.Multiset"
begin

section \<open>The plate layout of \<^verbatim>\<open>src/layout.py\<close>\<close>

text \<open>
  The class \<^verbatim>\<open>PlateLayout\<close> keeps two pandas data frames indexed by a row label and a
  column number: \<^verbatim>\<open>layout_grid\<close> (the content of a well) and \<^verbatim>\<open>type_grid\<close> (its kind).
  A data frame is a map from (row, column) to a value; a NaN cell is \<open>None\<close>. Writing
  through \<^verbatim>\<open>.at[r, c]\<close> is a map update.

  A cell of \<^verbatim>\<open>layout_grid\<close> holds either the string \<^verbatim>\<open>f"STD_{conc}"\<close>, written \<open>STD conc\<close>,
  or a sample identifier. A concentration is only stored, reversed and formatted, never
  computed with, so its type is a parameter.
\<close>

datatype error = IndexError | ZeroDivisionError

datatype 'c cell = STD 'c | ID string

type_synonym well = "string \<times> int"

record 'c PlateLayout =
  rows :: "string list"
  cols :: "int list"
  layout_grid :: "well \<rightharpoonup> 'c cell"
  type_grid :: "well \<rightharpoonup> string"
  standard_concentrations :: "'c list"

text \<open>
  The loop of \<^verbatim>\<open>_initialize_standards\<close> over \<^verbatim>\<open>enumerate(self.rows)\<close>:
  \<^verbatim>\<open>reversed_concs[i]\<close> raises IndexError when there are more rows than concentrations.
\<close>

fun place_standards ::
  "'c list \<Rightarrow> (nat \<times> string) list \<Rightarrow> 'c PlateLayout \<Rightarrow> error + 'c PlateLayout" where
  "place_standards reversed_concs [] self = Inr self"
| "place_standards reversed_concs ((i, row) # rest) self =
     (if i < length reversed_concs
      then place_standards reversed_concs rest
             (self\<lparr>layout_grid := (layout_grid self)((row, 1) \<mapsto> STD (reversed_concs ! i)),
                   type_grid := (type_grid self)((row, 1) \<mapsto> ''Standard'')\<rparr>)
      else Inl IndexError)"

definition initialize_standards :: "'c PlateLayout \<Rightarrow> error + 'c PlateLayout" where
  "initialize_standards self =
     (if length (standard_concentrations self) \<noteq> 8 then Inr self
      else let reversed_concs = rev (standard_concentrations self)
           in place_standards reversed_concs (enumerate 0 (rows self)) self)"

text \<open>
  The constructor \<^verbatim>\<open>__init__\<close>: first the fields, the two grids all NaN; then the
  standards, when the list is not empty.
\<close>

definition empty_layout :: "'c list \<Rightarrow> 'c PlateLayout" where
  "empty_layout standard_concentrations' =
     \<lparr>rows = [''A'', ''B'', ''C'', ''D'', ''E'', ''F'', ''G'', ''H''],
      cols = [1..12],
      layout_grid = Map.empty,
      type_grid = Map.empty,
      standard_concentrations = standard_concentrations'\<rparr>"

definition PlateLayout_init :: "'c list \<Rightarrow> error + 'c PlateLayout" where
  "PlateLayout_init standard_concentrations' =
     (let self = empty_layout standard_concentrations'
      in if standard_concentrations' \<noteq> [] then initialize_standards self else Inr self)"

text \<open>The default argument of the constructor, also the list \<^verbatim>\<open>main\<close> passes.\<close>

definition default_standards :: "real list" where
  "default_standards = [0, 0.1, 0.2, 0.4, 0.8, 1.6, 3.2, 6.4]"

section \<open>The scheduler: \<^verbatim>\<open>assign_samples\<close>\<close>

text \<open>
  A group is the pair \<^verbatim>\<open>(sub, reps)\<close> of the list of sample identifiers and the replicate
  count, a Python integer. An assignment is the triple \<^verbatim>\<open>(s_id, row, col)\<close>.
\<close>

type_synonym group = "string list \<times> int"
type_synonym assignment = "string \<times> string \<times> int"

text \<open>Step 1 of \<^verbatim>\<open>assign_samples\<close>: rows in order, columns \<^verbatim>\<open>range(start_col, 13)\<close>.\<close>

definition valid_slots :: "string list \<Rightarrow> int \<Rightarrow> well list" where
  "valid_slots rows' start_col =
     concat (map (\<lambda>row_lbl. map (\<lambda>c. (row_lbl, c)) [start_col..12]) rows')"

text \<open>
  The counting loop \<^verbatim>\<open>for k in range(slot_idx, total_slots)\<close>: the number of slots
  from \<open>slot_idx\<close> on that carry the row label of the slot at \<open>slot_idx\<close>, up to the
  first slot of another row.
\<close>

definition count_slots_in_row :: "well list \<Rightarrow> nat \<Rightarrow> nat" where
  "count_slots_in_row valid_slots' slot_idx =
     length (takeWhile (\<lambda>s. fst s = fst (valid_slots' ! slot_idx)) (drop slot_idx valid_slots'))"

text \<open>
  The scan \<^verbatim>\<open>for i, (sub, reps) in enumerate(queue)\<close> with its \<^verbatim>\<open>break\<close>: the index of the
  first group whose \<open>reps\<close> is at most the number of slots, or \<open>-1\<close>.
\<close>

fun best_candidate :: "nat \<Rightarrow> group list \<Rightarrow> int \<Rightarrow> int" where
  "best_candidate i [] n = - 1"
| "best_candidate i ((sub, reps) # rest) n =
     (if reps \<le> n then int i else best_candidate (Suc i) rest n)"

text \<open>\<^verbatim>\<open>queue.pop(idx)\<close>: the queue without its element at \<open>idx\<close>.\<close>

definition pop_rest :: "'a list \<Rightarrow> nat \<Rightarrow> 'a list" where
  "pop_rest queue idx = take idx queue @ drop (Suc idx) queue"

text \<open>
  The slice \<^verbatim>\<open>xs[i:]\<close>; a negative \<open>i\<close> counts from the end and is clamped at the start
  of the list.
\<close>

definition slice_from :: "'a list \<Rightarrow> int \<Rightarrow> 'a list" where
  "slice_from xs i =
     (if i < 0 then drop (nat (int (length xs) + i)) xs else drop (nat i) xs)"

text \<open>
  The placing loop \<^verbatim>\<open>for i in range(tps_to_place)\<close>, over the members it visits: each
  member takes the \<open>reps\<close> slots from \<open>slot_idx\<close> on, and \<open>slot_idx\<close> moves by \<open>reps\<close>.
  The reads \<^verbatim>\<open>valid_slots[slot_idx+k]\<close> are inside the list in every pass of the loop (the
  members placed take at most the slots left in the row, lemma \<open>place_candidate_step\<close>),
  so no IndexError is modelled here.
\<close>

fun place_members ::
  "well list \<Rightarrow> string list \<Rightarrow> nat \<Rightarrow> nat \<Rightarrow> assignment list \<Rightarrow> nat \<times> assignment list" where
  "place_members valid_slots' [] reps slot_idx final_assignments = (slot_idx, final_assignments)"
| "place_members valid_slots' (s_id # rest) reps slot_idx final_assignments =
     place_members valid_slots' rest reps (slot_idx + reps)
       (final_assignments @
          map (\<lambda>k. (s_id, fst (valid_slots' ! (slot_idx + k)), snd (valid_slots' ! (slot_idx + k))))
            [0..<reps])"

text \<open>
  The outcome of one pass through the \<^verbatim>\<open>while\<close> test and the loop body, on the local
  variables \<open>slot_idx\<close>, \<open>queue\<close> and \<open>final_assignments\<close>. \<open>Exit\<close> is the false loop
  test or the \<^verbatim>\<open>break\<close>; \<open>Raise\<close> is an exception.
\<close>

datatype outcome = Exit | Raise error | Continue nat "group list" "assignment list"

text \<open>
  The part of the body under \<^verbatim>\<open># Place candidate\<close>, for the index the scan has found.
  The division \<^verbatim>\<open>slots_in_row // sub_reps\<close> raises ZeroDivisionError when \<open>sub_reps\<close> is
  zero, and rounds down otherwise; \<^verbatim>\<open>range\<close> of a negative number is empty. The placing
  loop has a first round only when \<open>tps_to_place\<close> is positive, and then \<open>sub_reps\<close> is
  positive too, so the replicate count it runs with is \<open>nat sub_reps\<close> and the cursor
  stays a natural number.
\<close>

definition place_candidate ::
  "well list \<Rightarrow> nat \<Rightarrow> group list \<Rightarrow> assignment list \<Rightarrow> nat \<Rightarrow> nat \<Rightarrow> outcome" where
  "place_candidate valid_slots' slot_idx queue final_assignments slots_in_row best_candidate_idx =
     (let sub_samples = fst (queue ! best_candidate_idx);
          sub_reps = snd (queue ! best_candidate_idx);
          queue1 = pop_rest queue best_candidate_idx
      in if sub_reps = 0 then Raise ZeroDivisionError
         else
           let max_tps = int slots_in_row div sub_reps;
               tps_to_place = min (int (length sub_samples)) max_tps;
               placed = place_members valid_slots' (take (nat tps_to_place) sub_samples)
                          (nat sub_reps) slot_idx final_assignments;
               queue2 = (if tps_to_place < int (length sub_samples)
                         then (slice_from sub_samples tps_to_place, sub_reps) # queue1
                         else queue1)
           in Continue (fst placed) queue2 (snd placed))"

definition loop_body :: "well list \<Rightarrow> nat \<Rightarrow> group list \<Rightarrow> assignment list \<Rightarrow> outcome" where
  "loop_body valid_slots' slot_idx queue final_assignments =
     (if \<not> slot_idx < length valid_slots' then Exit
      else if queue = [] then Exit
      else
        let slots_in_row = count_slots_in_row valid_slots' slot_idx;
            best_candidate_idx = best_candidate 0 queue (int slots_in_row)
        in if best_candidate_idx = - 1
           then Continue (slot_idx + slots_in_row) queue final_assignments
           else place_candidate valid_slots' slot_idx queue final_assignments slots_in_row
                  (nat best_candidate_idx))"

text \<open>
  The \<^verbatim>\<open>while\<close> loop. It need not stop (a negative replicate count is put back at the
  front of the queue for ever), so it is a partial function: \<open>None\<close> is a run that
  never ends. The result is the final assignments and the leftovers.
\<close>

partial_function (option) while_loop ::
  "well list \<Rightarrow> nat \<Rightarrow> group list \<Rightarrow> assignment list \<Rightarrow>
   (error + assignment list \<times> group list) option" where
  "while_loop valid_slots' slot_idx queue final_assignments =
     (case loop_body valid_slots' slot_idx queue final_assignments of
        Exit \<Rightarrow> Some (Inr (final_assignments, queue))
      | Raise e \<Rightarrow> Some (Inl e)
      | Continue slot_idx' queue' final_assignments' \<Rightarrow>
          while_loop valid_slots' slot_idx' queue' final_assignments')"

declare while_loop.simps [code]

text \<open>\<^verbatim>\<open>_render_assignments_linear\<close>: every assignment is written into both grids.\<close>

fun render_assignments_linear :: "'c PlateLayout \<Rightarrow> assignment list \<Rightarrow> 'c PlateLayout" where
  "render_assignments_linear self [] = self"
| "render_assignments_linear self ((s_id, r, c) # rest) =
     render_assignments_linear
       (self\<lparr>layout_grid := (layout_grid self)((r, c) \<mapsto> ID s_id),
             type_grid := (type_grid self)((r, c) \<mapsto> ''Sample'')\<rparr>) rest"

text \<open>
  \<^verbatim>\<open>assign_samples\<close> returns the leftovers and the layout it has written to. The only
  write is after the loop, so a run that raises or never ends leaves the layout as it was.
\<close>

definition assign_samples ::
  "'c PlateLayout \<Rightarrow> group list \<Rightarrow> int \<Rightarrow> (error + group list \<times> 'c PlateLayout) option" where
  "assign_samples self grouped_samples_with_reps start_col =
     (case while_loop (valid_slots (rows self) start_col) 0 grouped_samples_with_reps [] of
        None \<Rightarrow> None
      | Some (Inl e) \<Rightarrow> Some (Inl e)
      | Some (Inr (final_assignments, leftovers)) \<Rightarrow>
          Some (Inr (leftovers, render_assignments_linear self final_assignments)))"

section \<open>The plate loop of \<^verbatim>\<open>elisa_design.main\<close>\<close>

text \<open>
  The loop \<^verbatim>\<open>while current_samples\<close> builds a fresh layout with the eight standards,
  assigns the current samples from column 2 and goes on with the leftovers. Saving the
  files and the manual edit of a plate do not touch the leftovers and are left out; the
  result is the list of layouts generated. \<open>None\<close> is a loop that never ends.
\<close>

partial_function (option) plate_loop ::
  "nat \<Rightarrow> group list \<Rightarrow> real PlateLayout list \<Rightarrow> (error + real PlateLayout list) option" where
  "plate_loop plate_counter current_samples plates =
     (if current_samples = [] then Some (Inr plates)
      else
        case PlateLayout_init default_standards of
          Inl e \<Rightarrow> Some (Inl e)
        | Inr layout \<Rightarrow>
            (case assign_samples layout current_samples 2 of
               None \<Rightarrow> None
             | Some (Inl e) \<Rightarrow> Some (Inl e)
             | Some (Inr (leftovers, layout')) \<Rightarrow>
                 if leftovers = [] then Some (Inr (plates @ [layout']))
                 else plate_loop (plate_counter + 1) leftovers (plates @ [layout'])))"

declare plate_loop.simps [code]

definition main :: "group list \<Rightarrow> (error + real PlateLayout list) option" where
  "main grouped_samples_with_reps = plate_loop 1 grouped_samples_with_reps []"

section \<open>Notions the properties are stated with\<close>

text \<open>
  A block \<open>(s_id, start, reps)\<close> stands for one placed member: the sample \<open>s_id\<close> on the
  \<open>reps\<close> positions \<open>start, start + 1, \<dots>\<close> of the slot sequence. \<open>block_wells\<close> is the
  run of assignments the placing loop appends for it, and \<open>member_blocks\<close> the blocks of
  a list of members placed one after the other from \<open>start\<close> on.
\<close>

type_synonym block = "string \<times> nat \<times> nat"

definition block_wells :: "well list \<Rightarrow> block \<Rightarrow> assignment list" where
  "block_wells S b =
     (case b of (s_id, start, reps) \<Rightarrow>
        map (\<lambda>k. (s_id, fst (S ! (start + k)), snd (S ! (start + k)))) [0..<reps])"

fun member_blocks :: "string list \<Rightarrow> nat \<Rightarrow> nat \<Rightarrow> block list" where
  "member_blocks [] reps start = []"
| "member_blocks (s_id # rest) reps start = (s_id, start, reps) # member_blocks rest reps (start + reps)"

text \<open>
  The members of a queue, each with the replicate count of its group, and the sample
  identifiers alone; \<open>tag\<close> is the same pair for a block.
\<close>

definition tagged :: "group list \<Rightarrow> (string \<times> int) list" where
  "tagged q = concat (map (\<lambda>g. map (\<lambda>s. (s, snd g)) (fst g)) q)"

definition sample_ids :: "group list \<Rightarrow> string list" where
  "sample_ids q = concat (map fst q)"

definition tag :: "block \<Rightarrow> string \<times> int" where
  "tag b = (fst b, int (snd (snd b)))"

text \<open>
  A block lies in one row between the positions \<open>lo\<close> and \<open>hi\<close>: it has at least one
  slot, its slots are positions from \<open>lo\<close> up to below \<open>hi\<close>, and all carry the row label
  of its first slot.
\<close>

definition row_block :: "well list \<Rightarrow> nat \<Rightarrow> nat \<Rightarrow> block \<Rightarrow> bool" where
  "row_block S lo hi b =
     (case b of (s_id, start, reps) \<Rightarrow>
        lo \<le> start \<and> start + reps \<le> hi \<and> 1 \<le> reps \<and>
        (\<forall>k<reps. fst (S ! (start + k)) = fst (S ! start)))"

text \<open>
  The loop state \<open>(i', q', fa')\<close> comes from \<open>(i, q, fa)\<close> by placing the blocks \<open>bs\<close>: the
  assignments grew by the wells of the blocks, every block lies in one row between the
  two cursors, and the members of the blocks together with those still queued are the
  members queued before.
\<close>

definition extends ::
  "well list \<Rightarrow> nat \<Rightarrow> group list \<Rightarrow> assignment list \<Rightarrow> block list \<Rightarrow>
   nat \<Rightarrow> group list \<Rightarrow> assignment list \<Rightarrow> bool" where
  "extends S i q fa bs i' q' fa' =
     (fa' = fa @ concat (map (block_wells S) bs) \<and>
      (\<forall>b\<in>set bs. row_block S i i' b) \<and>
      mset (map tag bs) + mset (tagged q') = mset (tagged q) \<and>
      i \<le> i' \<and> i' \<le> length S)"

text \<open>
  The loop state after \<open>k\<close> passes through the body, to count iterations: \<open>Continue\<close> with
  the state when all \<open>k\<close> passes went on, else how the loop stopped before.
\<close>

fun iterate_body :: "nat \<Rightarrow> well list \<Rightarrow> nat \<Rightarrow> group list \<Rightarrow> assignment list \<Rightarrow> outcome" where
  "iterate_body 0 S i q fa = Continue i q fa"
| "iterate_body (Suc k) S i q fa =
     (case loop_body S i q fa of
        Exit \<Rightarrow> Exit
      | Raise e \<Rightarrow> Raise e
      | Continue i' q' fa' \<Rightarrow> iterate_body k S i' q' fa')"

section \<open>Lemmas on the parts of the loop body\<close>

lemma best_candidate_none:
  "(best_candidate i q n = - 1) = (\<forall>g\<in>set q. n < snd g)"
  by (induction i q n rule: best_candidate.induct) auto

lemma best_candidate_least:
  "j < length q \<Longrightarrow> snd (q ! j) \<le> n \<Longrightarrow> \<forall>k<j. n < snd (q ! k) \<Longrightarrow>
   best_candidate i q n = int (i + j)"
proof (induction i q n arbitrary: j rule: best_candidate.induct)
  case (1 i n)
  then show ?case by simp
next
  case (2 i sub reps rest n)
  show ?case
  proof (cases j)
    case 0
    with 2 show ?thesis by simp
  next
    case (Suc j')
    with 2 have "n < reps" by auto
    moreover have "best_candidate (Suc i) rest n = int (Suc i + j')"
      using 2 Suc \<open>n < reps\<close> by (intro "2.IH") auto
    ultimately show ?thesis using Suc by simp
  qed
qed

lemma best_candidate_some:
  "best_candidate i q n \<noteq> - 1 \<Longrightarrow>
   \<exists>j<length q. best_candidate i q n = int (i + j) \<and> snd (q ! j) \<le> n \<and> (\<forall>k<j. n < snd (q ! k))"
proof (induction i q n rule: best_candidate.induct)
  case (1 i n)
  then show ?case by simp
next
  case (2 i sub reps rest n)
  show ?case
  proof (cases "reps \<le> n")
    case True
    then show ?thesis by (intro exI[of _ 0]) simp
  next
    case False
    with 2 obtain j where j: "j < length rest" "best_candidate (Suc i) rest n = int (Suc i + j)"
      "snd (rest ! j) \<le> n" "\<forall>k<j. n < snd (rest ! k)" by auto
    show ?thesis
    proof (intro exI[of _ "Suc j"] conjI allI impI)
      fix k assume "k < Suc j"
      then show "n < snd (((sub, reps) # rest) ! k)" using False j(4) by (cases k) auto
    qed (use j False in auto)
  qed
qed

lemma count_slots_bounds:
  assumes "i < length S"
  shows "1 \<le> count_slots_in_row S i" and "i + count_slots_in_row S i \<le> length S"
proof -
  have d: "drop i S = S ! i # drop (Suc i) S" using assms by (simp add: Cons_nth_drop_Suc)
  show "1 \<le> count_slots_in_row S i" by (simp add: count_slots_in_row_def d)
  have "length (takeWhile (\<lambda>s. fst s = fst (S ! i)) (drop i S)) \<le> length (drop i S)"
    by (rule length_takeWhile_le)
  then show "i + count_slots_in_row S i \<le> length S" using assms by (simp add: count_slots_in_row_def)
qed

lemma count_slots_same_row:
  assumes "k < count_slots_in_row S i"
  shows "fst (S ! (i + k)) = fst (S ! i)"
proof -
  let ?P = "\<lambda>s. fst s = fst (S ! i)"
  have k: "k < length (takeWhile ?P (drop i S))" using assms by (simp add: count_slots_in_row_def)
  then have "takeWhile ?P (drop i S) ! k = drop i S ! k" by (rule takeWhile_nth)
  moreover have "?P (takeWhile ?P (drop i S) ! k)" using set_takeWhileD[OF nth_mem[OF k]] by simp
  moreover have "k < length (drop i S)" using k length_takeWhile_le[of ?P "drop i S"] by linarith
  ultimately show ?thesis by simp
qed

lemma place_members_blocks:
  "place_members S ms r i fa =
     (i + length ms * r, fa @ concat (map (block_wells S) (member_blocks ms r i)))"
  by (induction ms arbitrary: i fa) (simp_all add: block_wells_def)


lemma member_blocks_tag: "map tag (member_blocks ms r st) = map (\<lambda>s. (s, int r)) ms"
  by (induction ms arbitrary: st) (simp_all add: tag_def)

lemma member_blocks_nth:
  "b \<in> set (member_blocks ms r st) \<Longrightarrow> \<exists>m<length ms. b = (ms ! m, st + m * r, r)"
proof (induction ms arbitrary: st)
  case Nil
  then show ?case by simp
next
  case (Cons s ms)
  from Cons.prems consider "b = (s, st, r)" | "b \<in> set (member_blocks ms r (st + r))" by auto
  then show ?case
  proof cases
    case 1
    then show ?thesis by (intro exI[of _ 0]) simp
  next
    case 2
    from Cons.IH[OF 2] obtain m where "m < length ms" "b = (ms ! m, st + r + m * r, r)" by blast
    then show ?thesis by (intro exI[of _ "Suc m"]) (simp add: add.assoc)
  qed
qed

lemma tagged_Cons: "tagged (g # q) = map (\<lambda>s. (s, snd g)) (fst g) @ tagged q"
  by (simp add: tagged_def)

lemma tagged_append: "tagged (p @ q) = tagged p @ tagged q"
  by (simp add: tagged_def)

lemma mset_tagged_pop:
  assumes "j < length q"
  shows "mset (map (\<lambda>s. (s, snd (q ! j))) (fst (q ! j))) + mset (tagged (pop_rest q j)) = mset (tagged q)"
proof -
  have "q = take j q @ q ! j # drop (Suc j) q" using assms by (rule id_take_nth_drop)
  then have "tagged q = tagged (take j q) @ map (\<lambda>s. (s, snd (q ! j))) (fst (q ! j)) @ tagged (drop (Suc j) q)"
    by (metis tagged_Cons tagged_append)
  then show ?thesis by (simp add: pop_rest_def tagged_append)
qed

lemma set_pop_rest: "set (pop_rest q j) \<subseteq> set q"
  unfolding pop_rest_def using set_take_subset[of j q] set_drop_subset[of "Suc j" q] by auto

lemma length_pop_rest: "j < length q \<Longrightarrow> Suc (length (pop_rest q j)) = length q"
  by (simp add: pop_rest_def)

lemma place_candidate_pos:
  assumes "q ! j = (sub, reps)" and "1 \<le> reps"
  shows "place_candidate S i q fa n j =
     Continue (i + min (length sub) (n div nat reps) * nat reps)
       (if min (length sub) (n div nat reps) < length sub
        then (drop (min (length sub) (n div nat reps)) sub, reps) # pop_rest q j
        else pop_rest q j)
       (fa @ concat (map (block_wells S)
          (member_blocks (take (min (length sub) (n div nat reps)) sub) (nat reps) i)))"
proof -
  let ?t = "min (length sub) (n div nat reps)"
  have r: "reps = int (nat reps)" using assms(2) by simp
  have "int n div reps = int (n div nat reps)" by (subst r) (simp only: zdiv_int)
  then have t: "min (int (length sub)) (int n div reps) = int ?t" by simp
  have l: "length (take ?t sub) = ?t" by simp
  show ?thesis
    unfolding place_candidate_def Let_def assms(1) fst_conv snd_conv t nat_int place_members_blocks l
    using assms(2) by (simp add: slice_from_def)
qed


lemma loop_body_Continue_D:
  assumes "loop_body S i q fa = Continue i' q' fa'"
  shows "i < length S" and "q \<noteq> []"
  using assms by (auto simp: loop_body_def split: if_splits)

lemma place_candidate_step:
  assumes i: "i < length S" and j: "j < length q" and g: "q ! j = (sub, reps)"
    and r1: "1 \<le> reps" and fit: "reps \<le> int (count_slots_in_row S i)"
    and eq: "place_candidate S i q fa (count_slots_in_row S i) j = Continue i' q' fa'"
  shows "\<exists>bs. extends S i q fa bs i' q' fa' \<and> (\<forall>g'\<in>set q'. g' \<in> set q \<or> snd g' = reps) \<and>
           ((i < i' \<and> length q' \<le> length q) \<or> (i' = i \<and> length q' < length q))"
proof -
  let ?n = "count_slots_in_row S i"
  let ?r = "nat reps"
  let ?t = "min (length sub) (?n div ?r)"
  let ?bs = "member_blocks (take ?t sub) ?r i"
  have n2: "i + ?n \<le> length S" using count_slots_bounds[OF i] by auto
  have rn: "1 \<le> ?r" "?r \<le> ?n" using r1 fit by auto
  then have d1: "1 \<le> ?n div ?r" by (simp add: div_greater_zero_iff Suc_le_eq)
  have "?t * ?r \<le> (?n div ?r) * ?r" by (rule mult_le_mono1) simp
  also have "\<dots> \<le> ?n" by simp
  finally have tn: "?t * ?r \<le> ?n" .
  note eq' = eq[unfolded place_candidate_pos[OF g r1]]
  have i': "i' = i + ?t * ?r" using eq' by simp
  have fa': "fa' = fa @ concat (map (block_wells S) ?bs)" using eq' by simp
  have q': "q' = (if ?t < length sub then (drop ?t sub, reps) # pop_rest q j else pop_rest q j)"
    using eq' by simp
  have blocks: "row_block S i i' b" if "b \<in> set ?bs" for b
  proof -
    from member_blocks_nth[OF that] obtain m where m: "m < ?t" "b = (take ?t sub ! m, i + m * ?r, ?r)"
      by auto
    have "Suc m * ?r \<le> ?t * ?r" using m(1) by (intro mult_le_mono1) simp
    then have le: "m * ?r + ?r \<le> ?t * ?r" by simp
    have same: "fst (S ! (i + m * ?r + k)) = fst (S ! (i + m * ?r))" if "k < ?r" for k
    proof -
      have "m * ?r + k < ?n" "m * ?r < ?n" using that le tn by linarith+
      then have "fst (S ! (i + (m * ?r + k))) = fst (S ! i)" "fst (S ! (i + m * ?r)) = fst (S ! i)"
        by (auto intro: count_slots_same_row)
      then show ?thesis by (simp add: add.assoc)
    qed
    show ?thesis using le rn(1) same by (simp add: row_block_def m(2) i')
  qed
  have "mset (map tag ?bs) + mset (tagged q') = mset (map (\<lambda>s. (s, reps)) sub) + mset (tagged (pop_rest q j))"
  proof -
    have "mset (map (\<lambda>s. (s, reps)) (take ?t sub)) + mset (map (\<lambda>s. (s, reps)) (drop ?t sub))
          = mset (map (\<lambda>s. (s, reps)) sub)"
      by (metis append_take_drop_id map_append mset_append)
    moreover have "\<not> ?t < length sub \<Longrightarrow> take ?t sub = sub" by simp
    ultimately show ?thesis
      using r1 by (auto simp: member_blocks_tag q' tagged_Cons)
  qed
  also have "\<dots> = mset (tagged q)" using mset_tagged_pop[OF j] g by simp
  finally have ms: "mset (map tag ?bs) + mset (tagged q') = mset (tagged q)" .
  have ext: "extends S i q fa ?bs i' q' fa'"
    using fa' blocks ms i' tn n2 by (simp add: extends_def)
  have reps': "\<forall>g'\<in>set q'. g' \<in> set q \<or> snd g' = reps"
    using set_pop_rest[of q j] by (auto simp: q')
  have meas: "(i < i' \<and> length q' \<le> length q) \<or> (i' = i \<and> length q' < length q)"
  proof (cases "?t < length sub")
    case True
    then have "?t = ?n div ?r" by simp
    then have "0 < ?t" "0 < ?r" using d1 rn(1) by linarith+
    then have "0 < ?t * ?r" by (rule mult_pos_pos)
    then have "i < i'" unfolding i' by linarith
    moreover have "length q' = length q" using True length_pop_rest[OF j] by (simp add: q')
    ultimately show ?thesis by simp
  next
    case False
    then show ?thesis using length_pop_rest[OF j] by (auto simp: i' q')
  qed
  show ?thesis using ext reps' meas by blast
qed

lemma loop_body_cases:
  assumes "loop_body S i q fa = Continue i' q' fa'"
  obtains (skip) "i < length S" "\<forall>g\<in>set q. int (count_slots_in_row S i) < snd g"
      "i' = i + count_slots_in_row S i" "q' = q" "fa' = fa"
  | (place) j where "i < length S" "j < length q" "snd (q ! j) \<le> int (count_slots_in_row S i)"
      "\<forall>k<j. int (count_slots_in_row S i) < snd (q ! k)"
      "place_candidate S i q fa (count_slots_in_row S i) j = Continue i' q' fa'"
proof (cases "best_candidate 0 q (int (count_slots_in_row S i)) = - 1")
  case True
  have i: "i < length S" and q: "q \<noteq> []" using loop_body_Continue_D[OF assms] by auto
  with assms True have "i' = i + count_slots_in_row S i" "q' = q" "fa' = fa"
    by (auto simp: loop_body_def)
  then show ?thesis using skip i True by (simp add: best_candidate_none)
next
  case False
  have i: "i < length S" and q: "q \<noteq> []" using loop_body_Continue_D[OF assms] by auto
  from best_candidate_some[OF False] obtain j where j: "j < length q"
    "best_candidate 0 q (int (count_slots_in_row S i)) = int j"
    "snd (q ! j) \<le> int (count_slots_in_row S i)"
    "\<forall>k<j. int (count_slots_in_row S i) < snd (q ! k)" by auto
  have "loop_body S i q fa = place_candidate S i q fa (count_slots_in_row S i) j"
    using i q False j(2) by (simp add: loop_body_def)
  then show ?thesis using place[OF i j(1,3,4)] assms by simp
qed

lemma loop_body_step:
  assumes reps: "\<forall>g\<in>set q. 1 \<le> snd g"
    and body: "loop_body S i q fa = Continue i' q' fa'"
  shows "\<exists>bs. extends S i q fa bs i' q' fa' \<and> (\<forall>g\<in>set q'. 1 \<le> snd g) \<and>
           ((i < i' \<and> length q' \<le> length q) \<or> (i' = i \<and> length q' < length q))"
  using body
proof (cases rule: loop_body_cases)
  case skip
  then show ?thesis using reps count_slots_bounds[OF skip(1)]
    by (intro exI[of _ "[]"]) (simp add: extends_def)
next
  case (place j)
  obtain sub r where g: "q ! j = (sub, r)" by (cases "q ! j")
  have r1: "1 \<le> r" using reps place(2) g by (metis nth_mem snd_conv)
  from place_candidate_step[OF place(1,2) g r1 _ place(5)] place(3) g
  obtain bs where "extends S i q fa bs i' q' fa'" "\<forall>g'\<in>set q'. g' \<in> set q \<or> snd g' = r"
    "(i < i' \<and> length q' \<le> length q) \<or> (i' = i \<and> length q' < length q)" by auto
  then show ?thesis using reps r1 by blast
qed

lemma row_block_mono: "row_block S lo hi b \<Longrightarrow> lo' \<le> lo \<Longrightarrow> hi \<le> hi' \<Longrightarrow> row_block S lo' hi' b"
  by (auto simp: row_block_def)

lemma extends_refl: "i \<le> length S \<Longrightarrow> extends S i q fa [] i q fa"
  by (simp add: extends_def)

lemma extends_trans:
  assumes "extends S i q fa bs1 i1 q1 fa1" and "extends S i1 q1 fa1 bs2 i2 q2 fa2"
  shows "extends S i q fa (bs1 @ bs2) i2 q2 fa2"
proof -
  have "\<forall>b\<in>set (bs1 @ bs2). row_block S i i2 b"
    using assms by (auto simp: extends_def intro: row_block_mono)
  moreover have "mset (map tag (bs1 @ bs2)) + mset (tagged q2) = mset (tagged q)"
    using assms by (simp add: extends_def add.assoc)
  ultimately show ?thesis using assms by (simp add: extends_def)
qed

lemma loop_body_no_raise:
  assumes "\<forall>g\<in>set q. 1 \<le> snd g"
  shows "loop_body S i q fa \<noteq> Raise e"
proof (cases "i < length S \<and> q \<noteq> [] \<and> best_candidate 0 q (int (count_slots_in_row S i)) \<noteq> - 1")
  case True
  then obtain j where j: "j < length q" "best_candidate 0 q (int (count_slots_in_row S i)) = int j"
    using best_candidate_some[of 0 q "int (count_slots_in_row S i)"] by auto
  obtain sub reps where g: "q ! j = (sub, reps)" by (cases "q ! j")
  have r1: "1 \<le> reps" using assms j(1) g by (metis nth_mem snd_conv)
  have "loop_body S i q fa = place_candidate S i q fa (count_slots_in_row S i) j"
    using True j(2) by (simp add: loop_body_def)
  then show ?thesis by (simp add: place_candidate_pos[OF g r1])
next
  case False
  then show ?thesis by (auto simp: loop_body_def Let_def)
qed

lemma while_loop_total:
  assumes "\<forall>g\<in>set q. 1 \<le> snd g" and "i \<le> length S"
  shows "\<exists>k bs i' q' fa'.
           k \<le> (length S - i) + length q \<and>
           iterate_body k S i q fa = Continue i' q' fa' \<and>
           loop_body S i' q' fa' = Exit \<and>
           while_loop S i q fa = Some (Inr (fa', q')) \<and>
           extends S i q fa bs i' q' fa' \<and> (\<forall>g\<in>set q'. 1 \<le> snd g)"
  using assms
proof (induction "(length S - i) + length q" arbitrary: i q fa rule: less_induct)
  case less
  show ?case
  proof (cases "loop_body S i q fa")
    case Exit
    have "while_loop S i q fa = Some (Inr (fa, q))"
      by (subst while_loop.simps) (simp add: Exit)
    then show ?thesis
      using Exit less.prems by (intro exI[of _ 0] exI[of _ "[]"] exI[of _ i] exI[of _ q] exI[of _ fa])
        (simp add: extends_refl)
  next
    case (Raise e)
    then show ?thesis using loop_body_no_raise[OF less.prems(1)] by blast
  next
    case (Continue i1 q1 fa1)
    from loop_body_step[OF less.prems(1) Continue] obtain bs1 where
      ext1: "extends S i q fa bs1 i1 q1 fa1" and reps1: "\<forall>g\<in>set q1. 1 \<le> snd g" and
      meas: "(i < i1 \<and> length q1 \<le> length q) \<or> (i1 = i \<and> length q1 < length q)" by blast
    have i1: "i1 \<le> length S" "i \<le> i1" using ext1 by (auto simp: extends_def)
    have lt: "(length S - i1) + length q1 < (length S - i) + length q"
      using meas i1 by linarith
    from less.hyps[OF lt reps1 i1(1), of fa1] obtain k bs2 i2 q2 fa2 where
      k: "k \<le> (length S - i1) + length q1" and
      it: "iterate_body k S i1 q1 fa1 = Continue i2 q2 fa2" and
      ex: "loop_body S i2 q2 fa2 = Exit" and
      wl: "while_loop S i1 q1 fa1 = Some (Inr (fa2, q2))" and
      ext2: "extends S i1 q1 fa1 bs2 i2 q2 fa2" and reps2: "\<forall>g\<in>set q2. 1 \<le> snd g" by blast
    have "while_loop S i q fa = Some (Inr (fa2, q2))"
      by (subst while_loop.simps) (simp add: Continue wl)
    moreover have "iterate_body (Suc k) S i q fa = Continue i2 q2 fa2"
      by (simp add: Continue it)
    moreover have "Suc k \<le> (length S - i) + length q" using k lt by linarith
    ultimately show ?thesis
      using ex extends_trans[OF ext1 ext2] reps2 by blast
  qed
qed

section \<open>Conservation of sample identifiers\<close>

lemma map_fst_tagged: "map fst (tagged q) = sample_ids q"
  by (induction q) (simp_all add: tagged_def sample_ids_def comp_def)

lemma map_fst_tag: "map fst (map tag bs) = map fst bs"
  by (simp add: tag_def comp_def)

lemma map_fst_block_wells: "map fst (block_wells S b) = replicate (snd (snd b)) (fst b)"
  by (cases b) (simp add: block_wells_def comp_def map_replicate_const)

lemma map_fst_blocks:
  "map fst (concat (map (block_wells S) bs)) = concat (map (\<lambda>b. replicate (snd (snd b)) (fst b)) bs)"
  by (induction bs) (simp_all add: map_fst_block_wells)

lemma set_replicated_blocks:
  "\<forall>b\<in>set bs. 1 \<le> snd (snd b) \<Longrightarrow>
   set (concat (map (\<lambda>b. replicate (snd (snd b)) (fst b)) bs)) = set (map fst bs)"
  by (induction bs) auto

lemma extends_sample_ids:
  assumes "extends S i q fa bs i' q' fa'"
  shows "mset (map fst bs) + mset (sample_ids q') = mset (sample_ids q)"
proof -
  have "mset (map tag bs) + mset (tagged q') = mset (tagged q)" using assms by (simp add: extends_def)
  then have "image_mset fst (mset (map tag bs) + mset (tagged q')) = image_mset fst (mset (tagged q))"
    by simp
  then show ?thesis
    by (simp only: image_mset_union mset_map[symmetric] map_fst_tagged map_fst_tag)
qed

subsection \<open>C1: conservation\<close>

text \<open>
  C1, as the code has it. For every slot sequence and every queue whose replicate counts
  are at least 1, the loop of \<^verbatim>\<open>assign_samples\<close> returns assignments and leftovers, and
  there is a list \<open>bs\<close> of placed members such that: the sample identifiers of the
  assignments are those of \<open>bs\<close> in order, each repeated as many times as its replicate
  count (one assignment per well); the placed members with their replicate counts
  together with the members of the leftovers are, as a multiset, the members of the input
  queue, and so are the sample identifiers alone; and when the sample identifiers of the
  input queue are pairwise distinct, no identifier of an assignment is one of a leftover.
\<close>

theorem conservation:
  assumes "\<forall>g\<in>set queue. 1 \<le> snd g"
  shows "\<exists>fa lo bs.
           while_loop S 0 queue [] = Some (Inr (fa, lo)) \<and>
           map fst fa = concat (map (\<lambda>b. replicate (snd (snd b)) (fst b)) bs) \<and>
           (\<forall>b\<in>set bs. 1 \<le> snd (snd b)) \<and>
           mset (map tag bs) + mset (tagged lo) = mset (tagged queue) \<and>
           mset (map fst bs) + mset (sample_ids lo) = mset (sample_ids queue) \<and>
           (distinct (sample_ids queue) \<longrightarrow> set (map fst fa) \<inter> set (sample_ids lo) = {})"
proof -
  from while_loop_total[OF assms, of 0 S "[]"] obtain bs i' lo fa where
    run: "while_loop S 0 queue [] = Some (Inr (fa, lo))" and
    ext: "extends S 0 queue [] bs i' lo fa" by auto
  have ids: "map fst fa = concat (map (\<lambda>b. replicate (snd (snd b)) (fst b)) bs)"
    using ext by (simp add: extends_def map_fst_blocks)
  have pos: "\<forall>b\<in>set bs. 1 \<le> snd (snd b)"
    using ext by (auto simp: extends_def row_block_def)
  have tg: "mset (map tag bs) + mset (tagged lo) = mset (tagged queue)"
    using ext by (simp add: extends_def)
  have cons: "mset (map fst bs) + mset (sample_ids lo) = mset (sample_ids queue)"
    by (rule extends_sample_ids[OF ext])
  have disj: "set (map fst fa) \<inter> set (sample_ids lo) = {}" if "distinct (sample_ids queue)"
  proof -
    have "mset (map fst bs @ sample_ids lo) = mset (sample_ids queue)" using cons by simp
    then have "distinct (map fst bs @ sample_ids lo)"
      using that by (metis mset_eq_imp_distinct_iff)
    then have "set (map fst bs) \<inter> set (sample_ids lo) = {}" by simp
    then show ?thesis by (simp only: ids set_replicated_blocks[OF pos])
  qed
  show ?thesis using run ids pos tg cons disj by blast
qed

text \<open>The theorem on two rows of three slots: both groups fit, nothing is lost.\<close>

theorem conservation_witness:
  "\<exists>fa lo (bs :: block list).
     while_loop (valid_slots [''A'', ''B''] 10) 0 [([''a'', ''b''], 2), ([''c''], 3)] [] = Some (Inr (fa, lo)) \<and>
     map fst fa = concat (map (\<lambda>b. replicate (snd (snd b)) (fst b)) bs) \<and>
     mset (map fst bs) + mset (sample_ids lo) = mset [''a'', ''b'', ''c''] \<and>
     set (map fst fa) \<inter> set (sample_ids lo) = {}"
proof -
  have h: "\<forall>g\<in>set [([''a'', ''b''], 2), ([''c''], 3::int)]. 1 \<le> snd g" by simp
  have d: "distinct (sample_ids [([''a'', ''b''], 2), ([''c''], 3)])" by (simp add: sample_ids_def)
  have s: "sample_ids [([''a'', ''b''], 2), ([''c''], 3)] = [''a'', ''b'', ''c'']" by (simp add: sample_ids_def)
  from conservation[OF h, of "valid_slots [''A'', ''B''] 10"] obtain fa lo and bs :: "block list" where
    r: "while_loop (valid_slots [''A'', ''B''] 10) 0 [([''a'', ''b''], 2), ([''c''], 3)] [] = Some (Inr (fa, lo))"
       "map fst fa = concat (map (\<lambda>b. replicate (snd (snd b)) (fst b)) bs)"
       "mset (map fst bs) + mset (sample_ids lo) = mset (sample_ids [([''a'', ''b''], 2), ([''c''], 3)])"
       "distinct (sample_ids [([''a'', ''b''], 2), ([''c''], 3)]) \<longrightarrow>
          set (map fst fa) \<inter> set (sample_ids lo) = {}"
    by blast
  have "set (map fst fa) \<inter> set (sample_ids lo) = {}" using r(4) d by (rule mp)
  then show ?thesis using r(1,2) r(3)[unfolded s] by blast
qed

text \<open>
  The claim as it is worded fails where the same identifier is queued in three groups of
  two replicates, on two rows of two slots: two groups are placed and one is left over.
  The four assignments and the leftover carry the identifier five times, the queue three
  times, and the identifier of the assignments is also that of a leftover.
\<close>

theorem conservation_counterexample:
  "while_loop (valid_slots [''A'', ''B''] 11) 0 [([''a''], 2), ([''a''], 2), ([''a''], 2)] [] =
     Some (Inr ([(''a'', ''A'', 11), (''a'', ''A'', 12), (''a'', ''B'', 11), (''a'', ''B'', 12)],
                [([''a''], 2)])) \<and>
   mset (map fst [(''a'', ''A'', 11::int), (''a'', ''A'', 12), (''a'', ''B'', 11), (''a'', ''B'', 12)])
     + mset (sample_ids [([''a''], 2)])
     \<noteq> mset (sample_ids [([''a''], 2), ([''a''], 2), ([''a''], 2)]) \<and>
   set (map fst [(''a'', ''A'', 11::int), (''a'', ''A'', 12), (''a'', ''B'', 11), (''a'', ''B'', 12)])
     \<inter> set (sample_ids [([''a''], 2)]) \<noteq> {}"
proof (intro conjI)
  show "while_loop (valid_slots [''A'', ''B''] 11) 0 [([''a''], 2), ([''a''], 2), ([''a''], 2)] [] =
     Some (Inr ([(''a'', ''A'', 11), (''a'', ''A'', 12), (''a'', ''B'', 11), (''a'', ''B'', 12)],
                [([''a''], 2)]))"
    by code_simp
qed (simp_all add: sample_ids_def)

section \<open>What holds of every run that returns\<close>

text \<open>
  The rule of the loop for partial correctness: a property of the loop state that holds
  at the start and is kept by every pass through the body holds when the loop exits.
\<close>

lemma while_loop_rule:
  assumes run: "while_loop S i q fa = Some (Inr (fa', lo))"
    and init: "I i q fa"
    and step: "\<And>i q fa i' q' fa'. I i q fa \<Longrightarrow> loop_body S i q fa = Continue i' q' fa' \<Longrightarrow> I i' q' fa'"
  shows "\<exists>i'. I i' lo fa' \<and> loop_body S i' lo fa' = Exit"
proof -
  let ?P = "\<lambda>S0 i q fa (y :: error + assignment list \<times> group list). S0 = S \<longrightarrow> I i q fa \<longrightarrow>
          (\<forall>fa' lo. y = Inr (fa', lo) \<longrightarrow> (\<exists>i'. I i' lo fa' \<and> loop_body S i' lo fa' = Exit))"
  have "?P S i q fa (Inr (fa', lo))"
  proof (rule while_loop.raw_induct[where P = ?P, OF _ run])
    fix wl S0 i q fa y
    assume IH: "\<And>S0 i q fa y. wl S0 i q fa = Some y \<Longrightarrow> ?P S0 i q fa y"
      and eq: "(case loop_body S0 i q fa of
                  Exit \<Rightarrow> Some (Inr (fa, q))
                | Raise e \<Rightarrow> Some (Inl e)
                | Continue i' q' fa' \<Rightarrow> wl S0 i' q' fa') = Some y"
    show "?P S0 i q fa y"
    proof (intro impI allI)
      fix fa' lo
      assume S0: "S0 = S" and inv: "I i q fa" and y: "y = Inr (fa', lo)"
      show "\<exists>i'. I i' lo fa' \<and> loop_body S i' lo fa' = Exit"
      proof (cases "loop_body S i q fa")
        case Exit
        with eq S0 y have "fa' = fa" "lo = q" by auto
        with inv Exit show ?thesis by blast
      next
        case (Raise e)
        with eq S0 y show ?thesis by simp
      next
        case (Continue i1 q1 fa1)
        with eq S0 have "wl S i1 q1 fa1 = Some y" by simp
        from IH[OF this] step[OF inv Continue] y show ?thesis by blast
      qed
    qed
  qed
  with init show ?thesis by blast
qed

lemma place_candidate_neg:
  assumes "q ! j = (sub, reps)" and "reps < 0"
  shows "\<exists>t. place_candidate S i q fa n j = Continue i (pop_rest q j) fa \<or>
             place_candidate S i q fa n j = Continue i ((slice_from sub t, reps) # pop_rest q j) fa"
proof -
  have "int n div reps \<le> 0" using assms(2) by (simp add: div_nonneg_neg_le0)
  then have "nat (min (int (length sub)) (int n div reps)) = 0" by simp
  then show ?thesis
    using assms(2) by (auto simp: place_candidate_def Let_def assms(1))
qed

lemma place_candidate_zero:
  assumes "q ! j = (sub, 0)"
  shows "place_candidate S i q fa n j = Raise ZeroDivisionError"
  by (simp add: place_candidate_def assms)


lemma set_tagged_pop: "j < length q \<Longrightarrow> set (tagged (pop_rest q j)) \<subseteq> set (tagged q)"
  using mset_tagged_pop[of j q] by (metis mset_subset_eq_add_right set_mset_mono set_mset_mset)

lemma set_slice_from: "set (slice_from xs t) \<subseteq> set xs"
  by (simp add: slice_from_def set_drop_subset)

lemma member_tagged: "g \<in> set q \<Longrightarrow> s \<in> set (fst g) \<Longrightarrow> (s, snd g) \<in> set (tagged q)"
  by (auto simp: tagged_def)

lemma loop_body_step_any:
  assumes body: "loop_body S i q fa = Continue i' q' fa'"
  shows "\<exists>bs. fa' = fa @ concat (map (block_wells S) bs) \<and>
           (\<forall>b\<in>set bs. row_block S i i' b \<and> tag b \<in> set (tagged q)) \<and>
           set (tagged q') \<subseteq> set (tagged q) \<and> i \<le> i' \<and> i' \<le> length S"
  using body
proof (cases rule: loop_body_cases)
  case skip
  then show ?thesis using count_slots_bounds[OF skip(1)] by (intro exI[of _ "[]"]) simp
next
  case (place j)
  obtain sub r where g: "q ! j = (sub, r)" by (cases "q ! j")
  consider "r = 0" | "r < 0" | "1 \<le> r" by linarith
  then show ?thesis
  proof cases
    case 1
    then show ?thesis using place(5) place_candidate_zero[of q j sub] g by simp
  next
    case 2
    have "(sub, r) \<in> set q" using place(2) g by (metis nth_mem)
    then have sl: "(s, r) \<in> set (tagged q)" if "s \<in> set (slice_from sub t)" for s t
      using member_tagged[of "(sub, r)" q s] that set_slice_from[of sub t] by auto
    from place_candidate_neg[OF g 2, of S i fa "count_slots_in_row S i"] place(5)
    obtain t where eq: "i' = i" "fa' = fa"
      "q' = pop_rest q j \<or> q' = (slice_from sub t, r) # pop_rest q j" by auto
    have "set (tagged q') \<subseteq> set (tagged q)"
      using eq(3) sl set_tagged_pop[OF place(2)] by (auto simp: tagged_Cons)
    then show ?thesis using eq(1,2) place(1) by (intro exI[of _ "[]"]) simp
  next
    case 3
    from place_candidate_step[OF place(1,2) g 3 _ place(5)] place(3) g
    obtain bs where ext: "extends S i q fa bs i' q' fa'" by auto
    then have "set_mset (mset (map tag bs) + mset (tagged q')) = set_mset (mset (tagged q))"
      by (simp add: extends_def)
    then have "set (map tag bs) \<union> set (tagged q') = set (tagged q)" by simp
    then have "\<forall>b\<in>set bs. tag b \<in> set (tagged q)" "set (tagged q') \<subseteq> set (tagged q)" by auto
    then show ?thesis using ext by (intro exI[of _ bs]) (simp add: extends_def)
  qed
qed

lemma while_loop_blocks:
  assumes run: "while_loop S i q fa = Some (Inr (fa', lo))" and i: "i \<le> length S"
  shows "\<exists>bs. fa' = fa @ concat (map (block_wells S) bs) \<and>
           (\<forall>b\<in>set bs. row_block S i (length S) b \<and> tag b \<in> set (tagged q))"
proof -
  let ?I = "\<lambda>i1 q1 fa1. i \<le> i1 \<and> i1 \<le> length S \<and> set (tagged q1) \<subseteq> set (tagged q) \<and>
              (\<exists>bs. fa1 = fa @ concat (map (block_wells S) bs) \<and>
                 (\<forall>b\<in>set bs. row_block S i (length S) b \<and> tag b \<in> set (tagged q)))"
  have init: "?I i q fa" using i by (auto intro: exI[of _ "[]"])
  have "\<exists>i'. ?I i' lo fa' \<and> loop_body S i' lo fa' = Exit"
  proof (rule while_loop_rule[where I = ?I, OF run init])
    fix i1 q1 fa1 i2 q2 fa2
    assume inv: "?I i1 q1 fa1" and body: "loop_body S i1 q1 fa1 = Continue i2 q2 fa2"
    from inv obtain bs1 where bs1: "fa1 = fa @ concat (map (block_wells S) bs1)"
      "\<forall>b\<in>set bs1. row_block S i (length S) b \<and> tag b \<in> set (tagged q)" by blast
    from loop_body_step_any[OF body] obtain bs2 where bs2:
      "fa2 = fa1 @ concat (map (block_wells S) bs2)"
      "\<forall>b\<in>set bs2. row_block S i1 i2 b \<and> tag b \<in> set (tagged q1)"
      "set (tagged q2) \<subseteq> set (tagged q1)" "i1 \<le> i2" "i2 \<le> length S" by blast
    have "fa2 = fa @ concat (map (block_wells S) (bs1 @ bs2))" using bs1(1) bs2(1) by simp
    moreover have "\<forall>b\<in>set (bs1 @ bs2). row_block S i (length S) b \<and> tag b \<in> set (tagged q)"
      using bs1(2) bs2(2,5) inv by (auto intro: row_block_mono)
    ultimately have "\<exists>bs. fa2 = fa @ concat (map (block_wells S) bs) \<and>
        (\<forall>b\<in>set bs. row_block S i (length S) b \<and> tag b \<in> set (tagged q))" by blast
    then show "?I i2 q2 fa2" using inv bs2(3,4,5) by auto
  qed
  then show ?thesis by blast
qed

subsection \<open>C2: a member's replicates stay in one row\<close>

text \<open>
  C2. For every slot sequence and every queue, when the loop of \<^verbatim>\<open>assign_samples\<close> returns,
  its assignments are the wells of a list of blocks, one block after the other. Every
  block is a member of a queued group with the replicate count of that group, at least
  1; its wells are that many consecutive positions of the slot sequence, inside the
  sequence, and all carry the row label of the first one: no block crosses a row
  boundary. When every replicate count of the queue is at least 1, the blocks together
  with the members of the leftovers are exactly the members of the queue, so each placed
  member has one block.
\<close>

theorem row_containment:
  assumes "while_loop S 0 queue [] = Some (Inr (fa, lo))"
  shows "\<exists>bs. fa = concat (map (block_wells S) bs) \<and>
           (\<forall>b\<in>set bs. tag b \<in> set (tagged queue) \<and> row_block S 0 (length S) b) \<and>
           ((\<forall>g\<in>set queue. 1 \<le> snd g) \<longrightarrow>
              mset (map tag bs) + mset (tagged lo) = mset (tagged queue))"
proof (cases "\<forall>g\<in>set queue. 1 \<le> snd g")
  case True
  from while_loop_total[OF True, of 0 S "[]"] assms obtain bs i' where
    ext: "extends S 0 queue [] bs i' lo fa" by auto
  then have "set_mset (mset (map tag bs) + mset (tagged lo)) = set_mset (mset (tagged queue))"
    by (simp add: extends_def)
  then have "set (map tag bs) \<union> set (tagged lo) = set (tagged queue)" by simp
  then have "\<forall>b\<in>set bs. tag b \<in> set (tagged queue)" by auto
  moreover have "\<forall>b\<in>set bs. row_block S 0 (length S) b"
    using ext by (auto simp: extends_def intro: row_block_mono)
  ultimately show ?thesis using ext by (intro exI[of _ bs]) (simp add: extends_def)
next
  case False
  from while_loop_blocks[OF assms] obtain bs where
    "fa = concat (map (block_wells S) bs)"
    "\<forall>b\<in>set bs. row_block S 0 (length S) b \<and> tag b \<in> set (tagged queue)" by auto
  then show ?thesis using False by (intro exI[of _ bs]) auto
qed

text \<open>
  The theorem on two rows of three slots: \<open>b\<close> does not fit the one slot left in row A
  and is placed in row B, although one slot of A and one of B would hold its two
  replicates.
\<close>

theorem row_containment_witness:
  "\<exists>bs. [(''a'', ''A'', 10), (''a'', ''A'', 11), (''b'', ''B'', 10), (''b'', ''B'', 11)] =
            concat (map (block_wells (valid_slots [''A'', ''B''] 10)) bs) \<and>
         (\<forall>b\<in>set bs. tag b \<in> set (tagged [([''a'', ''b''], 2), ([''c''], 3)]) \<and>
            row_block (valid_slots [''A'', ''B''] 10) 0 (length (valid_slots [''A'', ''B''] 10)) b)"
proof -
  have run: "while_loop (valid_slots [''A'', ''B''] 10) 0 [([''a'', ''b''], 2), ([''c''], 3)] [] =
      Some (Inr ([(''a'', ''A'', 10), (''a'', ''A'', 11), (''b'', ''B'', 10), (''b'', ''B'', 11)],
                 [([''c''], 3)]))"
    by code_simp
  from row_containment[OF run] show ?thesis by blast
qed

subsection \<open>C8: termination\<close>

text \<open>
  C8. When every group of the queue has a replicate count of at least 1,
  \<^verbatim>\<open>assign_samples\<close> returns: after \<open>k\<close> passes through the loop body, with \<open>k\<close> at most
  the number of slots plus the length of the queue, the loop exits, and the leftovers
  and the rendered layout are returned. Every pass that goes on either moves the slot
  cursor forward by at least one without lengthening the queue, or leaves the cursor and
  shortens the queue.
\<close>

theorem assign_samples_terminates:
  assumes "\<forall>g\<in>set queue. 1 \<le> snd g"
  shows "(\<exists>k i' lo fa.
            k \<le> length (valid_slots (rows self) start_col) + length queue \<and>
            iterate_body k (valid_slots (rows self) start_col) 0 queue [] = Continue i' lo fa \<and>
            loop_body (valid_slots (rows self) start_col) i' lo fa = Exit \<and>
            assign_samples self queue start_col =
              Some (Inr (lo, render_assignments_linear self fa))) \<and>
         (\<forall>S i q fa i' q' fa'.
            (\<forall>g\<in>set q. 1 \<le> snd g) \<and> loop_body S i q fa = Continue i' q' fa' \<longrightarrow>
            (i < i' \<and> length q' \<le> length q) \<or> (i' = i \<and> length q' < length q))"
proof (intro conjI allI impI)
  let ?S = "valid_slots (rows self) start_col"
  from while_loop_total[OF assms, of 0 ?S "[]"] obtain k i' lo fa where
    r: "k \<le> length ?S - 0 + length queue" "iterate_body k ?S 0 queue [] = Continue i' lo fa"
       "loop_body ?S i' lo fa = Exit" "while_loop ?S 0 queue [] = Some (Inr (fa, lo))" by blast
  have "assign_samples self queue start_col = Some (Inr (lo, render_assignments_linear self fa))"
    by (simp add: assign_samples_def r(4))
  then show "\<exists>k i' lo fa.
            k \<le> length ?S + length queue \<and>
            iterate_body k ?S 0 queue [] = Continue i' lo fa \<and>
            loop_body ?S i' lo fa = Exit \<and>
            assign_samples self queue start_col =
              Some (Inr (lo, render_assignments_linear self fa))"
    using r(1,2,3) by auto
next
  fix S i q fa i' q' fa'
  assume "(\<forall>g\<in>set q. 1 \<le> snd g) \<and> loop_body S i q fa = Continue i' q' fa'"
  then show "(i < i' \<and> length q' \<le> length q) \<or> (i' = i \<and> length q' < length q)"
    using loop_body_step[of q S i fa i' q' fa'] by blast
qed

text \<open>The theorem on two rows of three slots and a queue of two groups.\<close>

theorem assign_samples_terminates_witness:
  "\<exists>k i' lo fa.
     k \<le> length (valid_slots [''A'', ''B''] 10) + length [([''a'', ''b''], 2::int), ([''c''], 3)] \<and>
     iterate_body k (valid_slots [''A'', ''B''] 10) 0 [([''a'', ''b''], 2), ([''c''], 3)] [] =
       Continue i' lo fa \<and>
     loop_body (valid_slots [''A'', ''B''] 10) i' lo fa = Exit"
proof -
  have h: "\<forall>g\<in>set [([''a'', ''b''], 2), ([''c''], 3::int)]. 1 \<le> snd g" by simp
  let ?self = "\<lparr>rows = [''A'', ''B''], cols = [1..12], layout_grid = Map.empty,
                 type_grid = Map.empty, standard_concentrations = [] :: real list\<rparr>"
  from assign_samples_terminates[OF h, of ?self 10] show ?thesis
    by (simp only: PlateLayout.simps) blast
qed

section \<open>The constructor and the calibration column\<close>

lemma init_default:
  "PlateLayout_init default_standards =
     Inr \<lparr>rows = [''A'', ''B'', ''C'', ''D'', ''E'', ''F'', ''G'', ''H''],
          cols = [1..12],
          layout_grid = [(''A'', 1) \<mapsto> STD 6.4, (''B'', 1) \<mapsto> STD 3.2, (''C'', 1) \<mapsto> STD 1.6,
                         (''D'', 1) \<mapsto> STD 0.8, (''E'', 1) \<mapsto> STD 0.4, (''F'', 1) \<mapsto> STD 0.2,
                         (''G'', 1) \<mapsto> STD 0.1, (''H'', 1) \<mapsto> STD 0],
          type_grid = [(''A'', 1) \<mapsto> ''Standard'', (''B'', 1) \<mapsto> ''Standard'',
                       (''C'', 1) \<mapsto> ''Standard'', (''D'', 1) \<mapsto> ''Standard'',
                       (''E'', 1) \<mapsto> ''Standard'', (''F'', 1) \<mapsto> ''Standard'',
                       (''G'', 1) \<mapsto> ''Standard'', (''H'', 1) \<mapsto> ''Standard''],
          standard_concentrations = default_standards\<rparr>"
  by (simp add: PlateLayout_init_def empty_layout_def initialize_standards_def default_standards_def)

lemma empty_layout_fields:
  "rows (empty_layout stds) = [''A'', ''B'', ''C'', ''D'', ''E'', ''F'', ''G'', ''H'']"
  "layout_grid (empty_layout stds) = Map.empty"
  "type_grid (empty_layout stds) = Map.empty"
  "standard_concentrations (empty_layout stds) = stds"
  by (simp_all add: empty_layout_def)

lemma init_wrong_length:
  "length stds \<noteq> 8 \<Longrightarrow> PlateLayout_init stds = Inr (empty_layout stds)"
  by (simp add: PlateLayout_init_def initialize_standards_def Let_def empty_layout_fields)

subsection \<open>C6: the standards are placed in reverse order\<close>

text \<open>
  C6. The constructor, given the eight standards 0, 0.1, 0.2, 0.4, 0.8, 1.6, 3.2, 6.4,
  returns a layout on the rows A to H whose column 1, read from row A to row H, holds the
  standards in reverse order, each typed \<^verbatim>\<open>Standard\<close>: the row of index \<open>i\<close> holds the
  standard of index \<open>8 - 1 - i\<close>, so row A holds 6.4 and row H holds 0.
\<close>

theorem calibration_reversal:
  "\<exists>l. PlateLayout_init default_standards = Inr l \<and>
       rows l = [''A'', ''B'', ''C'', ''D'', ''E'', ''F'', ''G'', ''H''] \<and>
       map (\<lambda>row. layout_grid l (row, 1)) (rows l) = map (\<lambda>conc. Some (STD conc)) (rev default_standards) \<and>
       map (\<lambda>row. type_grid l (row, 1)) (rows l) = replicate 8 (Some ''Standard'') \<and>
       (\<forall>i<8. layout_grid l (rows l ! i, 1) = Some (STD (default_standards ! (8 - 1 - i)))) \<and>
       layout_grid l (''A'', 1) = Some (STD 6.4) \<and>
       layout_grid l (''H'', 1) = Some (STD 0)"
proof -
  obtain l where l: "PlateLayout_init default_standards = Inr l" using init_default by blast
  have g: "map (\<lambda>row. layout_grid l (row, 1)) (rows l) = map (\<lambda>conc. Some (STD conc)) (rev default_standards)"
    using l unfolding init_default by (auto simp: default_standards_def)
  have r: "rows l = [''A'', ''B'', ''C'', ''D'', ''E'', ''F'', ''G'', ''H'']"
    using l unfolding init_default by auto
  have t: "map (\<lambda>row. type_grid l (row, 1)) (rows l) = replicate 8 (Some ''Standard'')"
    using l unfolding init_default by (auto simp: numeral_eq_Suc)
  have n: "layout_grid l (rows l ! i, 1) = Some (STD (default_standards ! (8 - 1 - i)))" if "i < 8" for i
  proof -
    have len: "length (rows l) = 8" "length default_standards = 8" by (simp_all add: r default_standards_def)
    have "map (\<lambda>row. layout_grid l (row, 1)) (rows l) ! i = map (\<lambda>conc. Some (STD conc)) (rev default_standards) ! i"
      by (simp only: g)
    then show ?thesis using that len by (simp add: rev_nth)
  qed
  have a: "layout_grid l (''A'', 1) = Some (STD 6.4)" "layout_grid l (''H'', 1) = Some (STD 0)"
    using l unfolding init_default by auto
  show ?thesis using l r g t n a by blast
qed

text \<open>The theorem at the row of index 2: row C holds the standard of index 5, which is 1.6.\<close>

theorem calibration_reversal_witness:
  "\<exists>l. PlateLayout_init default_standards = Inr l \<and>
       layout_grid l (rows l ! 2, 1) = Some (STD (default_standards ! 5)) \<and>
       default_standards ! 5 = 1.6 \<and> rows l ! 2 = ''C''"
proof -
  from calibration_reversal obtain l where l: "PlateLayout_init default_standards = Inr l"
    "rows l = [''A'', ''B'', ''C'', ''D'', ''E'', ''F'', ''G'', ''H'']"
    "\<forall>i<8. layout_grid l (rows l ! i, 1) = Some (STD (default_standards ! (8 - 1 - i)))" by blast
  have "(2::nat) < 8" by simp
  with l(3) have "layout_grid l (rows l ! 2, 1) = Some (STD (default_standards ! (8 - 1 - 2)))" by blast
  then have "layout_grid l (rows l ! 2, 1) = Some (STD (default_standards ! 5))" by simp
  moreover have "default_standards ! 5 = 1.6" by (simp add: default_standards_def)
  moreover have "rows l ! 2 = ''C''" by (simp add: l(2))
  ultimately show ?thesis using l(1) by blast
qed

subsection \<open>C7: a standards list of another length\<close>

text \<open>
  C7, as the code has it. The constructor raises no error on a standards list whose
  length is not 8: it returns the layout with both grids empty, so no standard is placed,
  whether the list is empty or not. (The number of rows is fixed at 8.)
\<close>

theorem init_skips_standards:
  assumes "length stds \<noteq> 8"
  shows "PlateLayout_init stds = Inr (empty_layout stds) \<and>
         layout_grid (empty_layout stds) = Map.empty \<and> type_grid (empty_layout stds) = Map.empty"
  using init_wrong_length[OF assms] by (simp add: empty_layout_fields)

text \<open>The theorem on a list of two standards and on the empty list.\<close>

theorem init_skips_standards_witness:
  "PlateLayout_init [0.5, 1 :: real] = Inr (empty_layout [0.5, 1]) \<and>
   PlateLayout_init ([] :: real list) = Inr (empty_layout [])"
proof -
  have "length [0.5, 1 :: real] \<noteq> 8" "length ([] :: real list) \<noteq> 8" by simp_all
  then show ?thesis using init_skips_standards by blast
qed

text \<open>
  The claim as it is worded fails on a list of two standards: the constructor returns a
  layout, it does not fail.
\<close>

theorem init_no_configuration_error:
  "PlateLayout_init [0.5, 1 :: real] = Inr (empty_layout [0.5, 1])"
  by (simp add: init_wrong_length)

section \<open>One pass through the loop body\<close>

text \<open>
  The outcome of the placing, written out: the cursor after it, the queue of the next
  pass and the assignments, as blocks of the members placed.
\<close>

lemma place_candidate_outcome:
  assumes g: "q ! j = (sub, reps)" and r: "reps \<noteq> 0"
    and t: "tps = min (int (length sub)) (int n div reps)"
  shows "place_candidate S i q fa n j =
     Continue (i + nat tps * nat reps)
       (if tps < int (length sub) then (slice_from sub tps, reps) # pop_rest q j else pop_rest q j)
       (fa @ concat (map (block_wells S) (member_blocks (take (nat tps) sub) (nat reps) i)))"
proof -
  have "tps \<le> int (length sub)" using t by simp
  then have l: "length (take (nat tps) sub) = nat tps" by simp
  show ?thesis
    unfolding place_candidate_def Let_def g fst_conv snd_conv t[symmetric] place_members_blocks l
    using r by simp
qed

lemma loop_body_scan:
  assumes "i < length S" and "j < length q"
    and "snd (q ! j) \<le> int (count_slots_in_row S i)"
    and "\<forall>k<j. int (count_slots_in_row S i) < snd (q ! k)"
  shows "best_candidate 0 q (int (count_slots_in_row S i)) = int j"
    and "loop_body S i q fa = place_candidate S i q fa (count_slots_in_row S i) j"
proof -
  show b: "best_candidate 0 q (int (count_slots_in_row S i)) = int j"
    using best_candidate_least[OF assms(2,3,4), of 0] by simp
  have "q \<noteq> []" using assms(2) by auto
  then show "loop_body S i q fa = place_candidate S i q fa (count_slots_in_row S i) j"
    using assms(1) b by (simp add: loop_body_def)
qed

lemma pop_rest_later:
  assumes "j < j2" and "j2 < length q"
  shows "pop_rest q j ! (j2 - 1) = q ! j2"
proof -
  have l: "length (take j q) = j" using assms by simp
  have "\<not> j2 - 1 < j" using assms(1) by simp
  then have "pop_rest q j ! (j2 - 1) = drop (Suc j) q ! (j2 - 1 - j)"
    unfolding pop_rest_def by (simp only: nth_append l if_False)
  also have "\<dots> = q ! (Suc j + (j2 - 1 - j))" using assms by simp
  also have "Suc j + (j2 - 1 - j) = j2" using assms(1) by simp
  finally show ?thesis .
qed

lemma while_loop_Continue:
  "loop_body S i q fa = Continue i' q' fa' \<Longrightarrow> while_loop S i q fa = while_loop S i' q' fa'"
  by (subst while_loop.simps) simp

lemma while_loop_Raise:
  "loop_body S i q fa = Raise e \<Longrightarrow> while_loop S i q fa = Some (Inl e)"
  by (subst while_loop.simps) simp

lemma while_loop_stuck:
  assumes body: "loop_body S i q fa = Continue i q fa"
  shows "while_loop S i q fa = None"
proof (rule ccontr)
  assume "while_loop S i q fa \<noteq> None"
  then obtain y where run: "while_loop S i q fa = Some y" by auto
  let ?P = "\<lambda>S0 i0 q0 fa0 (y :: error + assignment list \<times> group list).
              \<not> (S0 = S \<and> i0 = i \<and> q0 = q \<and> fa0 = fa)"
  have "?P S i q fa y"
  proof (rule while_loop.raw_induct[where P = ?P, OF _ run])
    fix wl S0 i0 q0 fa0 y
    assume IH: "\<And>S0 i0 q0 fa0 y. wl S0 i0 q0 fa0 = Some y \<Longrightarrow> ?P S0 i0 q0 fa0 y"
      and eq: "(case loop_body S0 i0 q0 fa0 of
                  Exit \<Rightarrow> Some (Inr (fa0, q0))
                | Raise e \<Rightarrow> Some (Inl e)
                | Continue i' q' fa' \<Rightarrow> wl S0 i' q' fa') = Some y"
    show "?P S0 i0 q0 fa0 y"
    proof
      assume same: "S0 = S \<and> i0 = i \<and> q0 = q \<and> fa0 = fa"
      then have "wl S i q fa = Some y" using eq body by simp
      from IH[OF this] show False by simp
    qed
  qed
  then show False by simp
qed

subsection \<open>C4: first fit\<close>

text \<open>
  C4. In a pass through the loop body with the cursor inside the slot sequence, let the
  group \<open>(sub_samples, sub_reps)\<close> at index \<open>j\<close> be the first group of the queue whose
  replicate count is at most the number of slots left in the current row, and let
  \<open>tps_to_place\<close> be the place count the code computes for it. Then the scan returns \<open>j\<close>,
  and the pass is the placing of that group and of no other: it raises when \<open>sub_reps\<close>
  is zero, and else the cursor moves by \<open>tps_to_place\<close> times \<open>sub_reps\<close> slots, the
  assignments grow by the wells of the first \<open>tps_to_place\<close> members of \<open>sub_samples\<close>, one
  block of \<open>sub_reps\<close> slots each from the cursor on, and the next queue is the queue
  without its element at \<open>j\<close>, behind the rest of the group when members are left. The
  loop goes on from that state. In particular, of two queued groups with the same
  replicate count that fit the row, the group placed is at or before the earlier one,
  and the later one is still queued after the pass.
\<close>

theorem first_fit:
  assumes "slot_idx < length S" and "j < length queue"
    and "queue ! j = (sub_samples, sub_reps)"
    and "sub_reps \<le> int (count_slots_in_row S slot_idx)"
    and "\<forall>k<j. int (count_slots_in_row S slot_idx) < snd (queue ! k)"
    and "tps_to_place = min (int (length sub_samples))
                            (int (count_slots_in_row S slot_idx) div sub_reps)"
  shows "best_candidate 0 queue (int (count_slots_in_row S slot_idx)) = int j \<and>
         loop_body S slot_idx queue fa =
           (if sub_reps = 0 then Raise ZeroDivisionError
            else Continue (slot_idx + nat tps_to_place * nat sub_reps)
                   (if tps_to_place < int (length sub_samples)
                    then (slice_from sub_samples tps_to_place, sub_reps) # pop_rest queue j
                    else pop_rest queue j)
                   (fa @ concat (map (block_wells S)
                      (member_blocks (take (nat tps_to_place) sub_samples) (nat sub_reps) slot_idx)))) \<and>
         while_loop S slot_idx queue fa =
           (if sub_reps = 0 then Some (Inl ZeroDivisionError)
            else while_loop S (slot_idx + nat tps_to_place * nat sub_reps)
                   (if tps_to_place < int (length sub_samples)
                    then (slice_from sub_samples tps_to_place, sub_reps) # pop_rest queue j
                    else pop_rest queue j)
                   (fa @ concat (map (block_wells S)
                      (member_blocks (take (nat tps_to_place) sub_samples) (nat sub_reps) slot_idx)))) \<and>
         (\<forall>j1 j2. j1 < j2 \<and> j2 < length queue \<and> snd (queue ! j1) = snd (queue ! j2) \<and>
            snd (queue ! j1) \<le> int (count_slots_in_row S slot_idx) \<longrightarrow>
            j \<le> j1 \<and> pop_rest queue j ! (j2 - 1) = queue ! j2)"
proof -
  have fit: "snd (queue ! j) \<le> int (count_slots_in_row S slot_idx)" using assms(3,4) by simp
  note ff = loop_body_scan[OF assms(1,2) fit assms(5)]
  have body: "loop_body S slot_idx queue fa =
           (if sub_reps = 0 then Raise ZeroDivisionError
            else Continue (slot_idx + nat tps_to_place * nat sub_reps)
                   (if tps_to_place < int (length sub_samples)
                    then (slice_from sub_samples tps_to_place, sub_reps) # pop_rest queue j
                    else pop_rest queue j)
                   (fa @ concat (map (block_wells S)
                      (member_blocks (take (nat tps_to_place) sub_samples) (nat sub_reps) slot_idx))))"
  proof (cases "sub_reps = 0")
    case True
    then show ?thesis using ff(2)[of fa] place_candidate_zero[of queue j sub_samples] assms(3) by simp
  next
    case False
    then show ?thesis using ff(2)[of fa] place_candidate_outcome[OF assms(3) False assms(6)] by simp
  qed
  have loop: "while_loop S slot_idx queue fa =
           (if sub_reps = 0 then Some (Inl ZeroDivisionError)
            else while_loop S (slot_idx + nat tps_to_place * nat sub_reps)
                   (if tps_to_place < int (length sub_samples)
                    then (slice_from sub_samples tps_to_place, sub_reps) # pop_rest queue j
                    else pop_rest queue j)
                   (fa @ concat (map (block_wells S)
                      (member_blocks (take (nat tps_to_place) sub_samples) (nat sub_reps) slot_idx))))"
  proof (cases "sub_reps = 0")
    case True
    then show ?thesis using while_loop_Raise[of S slot_idx queue fa] body by simp
  next
    case False
    then show ?thesis using while_loop_Continue[of S slot_idx queue fa] body by simp
  qed
  have fifo: "j \<le> j1 \<and> pop_rest queue j ! (j2 - 1) = queue ! j2"
    if "j1 < j2 \<and> j2 < length queue \<and> snd (queue ! j1) = snd (queue ! j2) \<and>
        snd (queue ! j1) \<le> int (count_slots_in_row S slot_idx)" for j1 j2
  proof -
    have "\<not> j1 < j" using that assms(5) by auto
    then have "j \<le> j1" "j < j2" using that by auto
    then show ?thesis using pop_rest_later[of j j2 queue] that by simp
  qed
  show ?thesis using ff(1) body loop fifo by blast
qed

text \<open>
  The theorem on a row of three slots: the group of four replicates does not fit, and of
  the two groups of two replicates the earlier one, \<open>a\<close>, is placed on the first two
  slots of row A, while \<open>b\<close> stays queued.
\<close>

theorem first_fit_witness:
  "best_candidate 0 [([''x''], 4), ([''a''], 2), ([''b''], 2)]
     (int (count_slots_in_row (valid_slots [''A'', ''B''] 10) 0)) = 1 \<and>
   loop_body (valid_slots [''A'', ''B''] 10) 0 [([''x''], 4), ([''a''], 2), ([''b''], 2)] [] =
     Continue 2 [([''x''], 4), ([''b''], 2)] [(''a'', ''A'', 10), (''a'', ''A'', 11)]"
proof -
  let ?S = "valid_slots [''A'', ''B''] 10"
  let ?q = "[([''x''], 4), ([''a''], 2), ([''b''], 2::int)]"
  have n: "count_slots_in_row ?S 0 = 3" by code_simp
  have 1: "0 < length ?S" by (simp add: valid_slots_def)
  have 2: "1 < length ?q" by simp
  have 3: "?q ! 1 = ([''a''], 2)" by simp
  have 4: "2 \<le> int (count_slots_in_row ?S 0)" by (simp add: n)
  have 5: "\<forall>k<1. int (count_slots_in_row ?S 0) < snd (?q ! k)" by (simp add: n)
  have 6: "1 = min (int (length [''a''])) (int (count_slots_in_row ?S 0) div 2)" by (simp add: n)
  have w: "concat (map (block_wells ?S) (member_blocks (take (nat 1) [''a'']) (nat 2) 0)) =
             [(''a'', ''A'', 10), (''a'', ''A'', 11)]" by code_simp
  have p: "pop_rest ?q 1 = [([''x''], 4), ([''b''], 2)]" by (simp add: pop_rest_def)
  from first_fit[OF 1 2 3 4 5 6, of "[]"] show ?thesis unfolding w p by simp
qed

subsection \<open>C5: the remainder of a split group goes to the front\<close>




subsection \<open>C9: a group without members\<close>

text \<open>
  C9, as the code has it. When the group the scan finds has no member and a replicate
  count of at least 1, the pass removes it from the queue and changes neither the cursor
  nor the assignments, and the loop goes on as if the group had not been queued. When
  this is the first pass of \<^verbatim>\<open>assign_samples\<close>, the call returns what it returns on the
  queue without the group: the group is in neither the assignments nor the leftovers.
\<close>

theorem empty_group_vanishes:
  assumes "slot_idx < length S" and "j < length queue" and "queue ! j = ([], reps)"
    and "1 \<le> reps" and "reps \<le> int (count_slots_in_row S slot_idx)"
    and "\<forall>k<j. int (count_slots_in_row S slot_idx) < snd (queue ! k)"
  shows "loop_body S slot_idx queue fa = Continue slot_idx (pop_rest queue j) fa \<and>
         while_loop S slot_idx queue fa = while_loop S slot_idx (pop_rest queue j) fa \<and>
         (\<forall>self start_col. S = valid_slots (rows self) start_col \<and> slot_idx = 0 \<longrightarrow>
            assign_samples self queue start_col = assign_samples self (pop_rest queue j) start_col)"
proof -
  have fit: "snd (queue ! j) \<le> int (count_slots_in_row S slot_idx)" using assms(3,5) by simp
  have r0: "reps \<noteq> 0" using assms(4) by simp
  have "0 \<le> int (count_slots_in_row S slot_idx) div reps"
    using assms(4) by (simp add: pos_imp_zdiv_nonneg_iff)
  then have t: "0 = min (int (length ([] :: string list))) (int (count_slots_in_row S slot_idx) div reps)"
    by simp
  have body: "loop_body S slot_idx queue fa = Continue slot_idx (pop_rest queue j) fa" for fa
    using loop_body_scan(2)[OF assms(1,2) fit assms(6), of fa]
      place_candidate_outcome[OF assms(3) r0 t, of S slot_idx fa]
    by simp
  have loop: "while_loop S slot_idx queue fa = while_loop S slot_idx (pop_rest queue j) fa" for fa
    by (rule while_loop_Continue[OF body])
  have "assign_samples self queue start_col = assign_samples self (pop_rest queue j) start_col"
    if "S = valid_slots (rows self) start_col \<and> slot_idx = 0" for self :: "'a PlateLayout" and start_col
    using that loop[of "[]"] by (simp add: assign_samples_def)
  then show ?thesis using body loop by blast
qed

text \<open>
  The theorem on the plate of eight rows from column 2, with an empty group of two
  replicates behind a group that fits no row: the call returns what it returns without
  the empty group, and its leftovers are the group of 12 replicates alone.
\<close>

theorem empty_group_vanishes_witness:
  "assign_samples (empty_layout ([] :: real list)) [([''x''], 12), ([], 2), ([''c''], 1)] 2 =
     assign_samples (empty_layout []) [([''x''], 12), ([''c''], 1)] 2 \<and>
   assign_samples (empty_layout ([] :: real list)) [([''x''], 12), ([], 2), ([''c''], 1)] 2 =
     Some (Inr ([([''x''], 12)],
                render_assignments_linear (empty_layout []) [(''c'', ''A'', 2)]))"
proof -
  let ?rows = "[''A'', ''B'', ''C'', ''D'', ''E'', ''F'', ''G'', ''H'']"
  let ?S = "valid_slots ?rows 2"
  let ?q = "[([''x''], 12), ([], 2), ([''c''], 1::int)]"
  let ?self = "empty_layout ([] :: real list)"
  have n: "count_slots_in_row ?S 0 = 11" by code_simp
  have 1: "0 < length ?S" by (simp add: valid_slots_def)
  have 2: "1 < length ?q" by simp
  have 3: "?q ! 1 = ([], 2)" by simp
  have 4: "(1::int) \<le> 2" by simp
  have 5: "2 \<le> int (count_slots_in_row ?S 0)" by (simp add: n)
  have 6: "\<forall>k<1. int (count_slots_in_row ?S 0) < snd (?q ! k)" by (simp add: n)
  have r: "pop_rest ?q 1 = [([''x''], 12), ([''c''], 1)]" by (simp add: pop_rest_def)
  have s: "?S = valid_slots (rows ?self) 2 \<and> (0::nat) = 0" by (simp add: empty_layout_fields)
  have e: "while_loop ?S 0 [([''x''], 12), ([''c''], 1)] [] = Some (Inr ([(''c'', ''A'', 2)], [([''x''], 12)]))"
    by code_simp
  from empty_group_vanishes[OF 1 2 3 4 5 6, of "[]"] s
  have a: "assign_samples ?self ?q 2 = assign_samples ?self (pop_rest ?q 1) 2" by blast
  moreover have "assign_samples ?self [([''x''], 12), ([''c''], 1)] 2 =
      Some (Inr ([([''x''], 12)], render_assignments_linear ?self [(''c'', ''A'', 2)]))"
    by (simp add: assign_samples_def empty_layout_fields e)
  ultimately show ?thesis unfolding r by simp
qed

text \<open>
  The claim as it is worded fails on an empty group with the replicate count -1, which
  fits every row: the pass puts it back at the front of the queue, so it is not removed,
  and \<^verbatim>\<open>assign_samples\<close> never returns.
\<close>

theorem empty_group_kept_for_ever:
  "loop_body (valid_slots [''A'', ''B'', ''C'', ''D'', ''E'', ''F'', ''G'', ''H''] 2) 0 [([], - 1)] [] =
     Continue 0 [([], - 1)] [] \<and>
   assign_samples (empty_layout ([] :: real list)) [([], - 1)] 2 = None"
proof -
  have b: "loop_body (valid_slots [''A'', ''B'', ''C'', ''D'', ''E'', ''F'', ''G'', ''H''] 2) 0
             [([], - 1)] [] = Continue 0 [([], - 1)] []"
    by code_simp
  from while_loop_stuck[OF b] show ?thesis using b by (simp add: assign_samples_def empty_layout_fields)
qed

section \<open>The wells a run writes\<close>

lemma render_rows: "rows (render_assignments_linear self fa) = rows self"
  by (induction self fa rule: render_assignments_linear.induct) simp_all

lemma render_frame:
  "\<forall>a\<in>set fa. snd a \<noteq> w \<Longrightarrow>
   layout_grid (render_assignments_linear self fa) w = layout_grid self w \<and>
   type_grid (render_assignments_linear self fa) w = type_grid self w"
  by (induction self fa rule: render_assignments_linear.induct) auto

lemma valid_slots_column:
  "(r, c) \<in> set (valid_slots rows' start_col) \<Longrightarrow> start_col \<le> c \<and> c \<le> 12 \<and> r \<in> set rows'"
  by (auto simp: valid_slots_def)

lemma block_wells_in_slots:
  assumes "row_block S lo (length S) b" and "a \<in> set (block_wells S b)"
  shows "snd a \<in> set S"
proof -
  obtain s st r where b: "b = (s, st, r)" by (cases b)
  from assms(2) obtain k where k: "k < r" "a = (s, fst (S ! (st + k)), snd (S ! (st + k)))"
    by (auto simp: block_wells_def b)
  have "st + k < length S" using assms(1) k(1) by (simp add: row_block_def b)
  then have "S ! (st + k) \<in> set S" by (rule nth_mem)
  then show ?thesis by (simp add: k(2))
qed

lemma while_loop_wells:
  assumes "while_loop S 0 q [] = Some (Inr (fa, lo))" and "a \<in> set fa"
  shows "snd a \<in> set S"
proof -
  from while_loop_blocks[OF assms(1)] obtain bs where
    bs: "fa = concat (map (block_wells S) bs)" "\<forall>b\<in>set bs. row_block S 0 (length S) b" by auto
  from assms(2) bs(1) obtain b where "b \<in> set bs" "a \<in> set (block_wells S b)" by auto
  then show ?thesis using bs(2) block_wells_in_slots by blast
qed

lemma assign_samples_Inr_D:
  assumes "assign_samples self q start_col = Some (Inr (lo, self'))"
  shows "\<exists>fa. while_loop (valid_slots (rows self) start_col) 0 q [] = Some (Inr (fa, lo)) \<and>
              self' = render_assignments_linear self fa"
  using assms by (auto simp: assign_samples_def split: option.splits sum.splits)

subsection \<open>C10: the columns before the start column are untouched\<close>

text \<open>
  C10. For a start column of at least 2 and every queue, when \<^verbatim>\<open>assign_samples\<close> returns,
  every well of column 1 has the content and the type it had before, and so has every
  well of a column before the start column: the run writes to columns from the start
  column on only. (A run that raises or does not end writes nothing.)
\<close>

theorem column_frame:
  assumes "2 \<le> start_col"
    and "assign_samples self queue start_col = Some (Inr (leftovers, self'))"
  shows "(\<forall>row. layout_grid self' (row, 1) = layout_grid self (row, 1) \<and>
                type_grid self' (row, 1) = type_grid self (row, 1)) \<and>
         (\<forall>row c. c < start_col \<longrightarrow>
                layout_grid self' (row, c) = layout_grid self (row, c) \<and>
                type_grid self' (row, c) = type_grid self (row, c))"
proof -
  from assign_samples_Inr_D[OF assms(2)] obtain fa where
    run: "while_loop (valid_slots (rows self) start_col) 0 queue [] = Some (Inr (fa, leftovers))" and
    self': "self' = render_assignments_linear self fa" by blast
  have keep: "layout_grid self' (row, c) = layout_grid self (row, c) \<and>
              type_grid self' (row, c) = type_grid self (row, c)" if "c < start_col" for row c
  proof -
    have "\<forall>a\<in>set fa. snd a \<noteq> (row, c)"
    proof
      fix a assume "a \<in> set fa"
      from while_loop_wells[OF run this] have "snd a \<in> set (valid_slots (rows self) start_col)" .
      then have "start_col \<le> snd (snd a)" using valid_slots_column[of "fst (snd a)" "snd (snd a)"] by simp
      then show "snd a \<noteq> (row, c)" using that by auto
    qed
    then show ?thesis unfolding self' by (rule render_frame)
  qed
  have "(1::int) < start_col" using assms(1) by simp
  then show ?thesis using keep by blast
qed

text \<open>
  The theorem on a plate with the eight standards and a start column of 2: after the run
  the well A1 still holds the standard 6.4, and A2 holds a sample.
\<close>

theorem column_frame_witness:
  "\<exists>l lo l'. PlateLayout_init default_standards = Inr l \<and>
      assign_samples l [([''a'', ''b''], 6)] 2 = Some (Inr (lo, l')) \<and>
      layout_grid l' (''A'', 1) = layout_grid l (''A'', 1) \<and>
      type_grid l' (''A'', 1) = type_grid l (''A'', 1) \<and>
      layout_grid l (''A'', 1) = Some (STD 6.4) \<and>
      layout_grid l' (''A'', 2) = Some (ID ''a'')"
proof -
  obtain l where l: "PlateLayout_init default_standards = Inr l"
    "rows l = [''A'', ''B'', ''C'', ''D'', ''E'', ''F'', ''G'', ''H'']"
    "layout_grid l (''A'', 1) = Some (STD 6.4)"
    by (simp add: PlateLayout_init_def empty_layout_def initialize_standards_def default_standards_def)
  let ?fa = "[(''a'', ''A'', 2), (''a'', ''A'', 3), (''a'', ''A'', 4), (''a'', ''A'', 5),
              (''a'', ''A'', 6), (''a'', ''A'', 7), (''b'', ''B'', 2), (''b'', ''B'', 3),
              (''b'', ''B'', 4), (''b'', ''B'', 5), (''b'', ''B'', 6), (''b'', ''B'', 7::int)]"
  have run: "while_loop (valid_slots [''A'', ''B'', ''C'', ''D'', ''E'', ''F'', ''G'', ''H''] 2) 0
               [([''a'', ''b''], 6)] [] = Some (Inr (?fa, []))"
    by code_simp
  have a: "assign_samples l [([''a'', ''b''], 6)] 2 = Some (Inr ([], render_assignments_linear l ?fa))"
    by (simp add: assign_samples_def l(2) run)
  have "(2::int) \<le> 2" by simp
  from column_frame[OF this a] have
    "layout_grid (render_assignments_linear l ?fa) (''A'', 1) = layout_grid l (''A'', 1)"
    "type_grid (render_assignments_linear l ?fa) (''A'', 1) = type_grid l (''A'', 1)" by blast+
  moreover have "layout_grid (render_assignments_linear l ?fa) (''A'', 2) = Some (ID ''a'')" by simp
  ultimately show ?thesis using l(1,3) a by blast
qed

section \<open>The plate loop and a group that fits no row\<close>

text \<open>
  From column 2 a row of the plate has 11 slots. A group with more replicates is never
  the group the scan finds, so every pass through the loop body keeps it in the queue.
\<close>

lemma valid_slots_Cons:
  "valid_slots (r # rs) c = map (\<lambda>k. (r, k)) [c..12] @ valid_slots rs c"
  by (simp add: valid_slots_def)

lemma takeWhile_none: "\<forall>x\<in>set xs. \<not> P x \<Longrightarrow> takeWhile P xs = []"
  by (cases xs) auto

lemma count_slots_valid_le:
  assumes "distinct rows'" and "i < length (valid_slots rows' c)"
  shows "count_slots_in_row (valid_slots rows' c) i \<le> length [c..12]"
  using assms
proof (induction rows' arbitrary: i)
  case Nil
  then show ?case by (simp add: valid_slots_def)
next
  case (Cons r rs)
  let ?row = "map (\<lambda>k. (r, k)) [c..12]"
  let ?rest = "valid_slots rs c"
  show ?case
  proof (cases "i < length ?row")
    case True
    then have nth: "(?row @ ?rest) ! i = ?row ! i" by (simp add: nth_append)
    have fst: "fst (?row ! i) = r" using True by simp
    have all: "\<forall>x\<in>set (drop i ?row). fst x = r" by (auto dest: in_set_dropD)
    have none: "\<forall>x\<in>set ?rest. \<not> fst x = r"
      using Cons.prems(1) valid_slots_column[of _ _ rs c] by auto
    have "takeWhile (\<lambda>s. fst s = r) (drop i ?row @ ?rest) = drop i ?row @ takeWhile (\<lambda>s. fst s = r) ?rest"
      using all by (simp add: takeWhile_append2)
    also have "\<dots> = drop i ?row" using takeWhile_none[OF none] by simp
    finally have "takeWhile (\<lambda>s. fst s = r) (drop i ?row @ ?rest) = drop i ?row" .
    then have "count_slots_in_row (?row @ ?rest) i = length (drop i ?row)"
      using True unfolding count_slots_in_row_def nth fst by simp
    then show ?thesis by (simp add: valid_slots_Cons)
  next
    case False
    then have i: "i - length ?row < length ?rest" using Cons.prems(2) by (simp add: valid_slots_Cons)
    have "count_slots_in_row (?row @ ?rest) i = count_slots_in_row ?rest (i - length ?row)"
      using False by (simp add: count_slots_in_row_def nth_append)
    then show ?thesis using Cons.IH[OF _ i] Cons.prems(1) by (simp add: valid_slots_Cons)
  qed
qed

lemma mem_pop_rest: "g \<in> set q \<Longrightarrow> j < length q \<Longrightarrow> g \<noteq> q ! j \<Longrightarrow> g \<in> set (pop_rest q j)"
proof -
  assume g: "g \<in> set q" and j: "j < length q" and n: "g \<noteq> q ! j"
  have "set q = set (take j q @ q ! j # drop (Suc j) q)"
    using id_take_nth_drop[OF j] by (rule arg_cong[where f = set])
  then have "g \<in> set (take j q) \<union> {q ! j} \<union> set (drop (Suc j) q)" using g by simp
  then show ?thesis using n by (auto simp: pop_rest_def)
qed

lemma place_candidate_queue:
  assumes "place_candidate S i q fa n j = Continue i' q' fa'"
  shows "q' = pop_rest q j \<or> (\<exists>rem. q' = (rem, snd (q ! j)) # pop_rest q j)"
  using assms by (auto simp: place_candidate_def Let_def split: if_splits)

lemma loop_body_keeps_oversize:
  assumes "loop_body S i q fa = Continue i' q' fa'" and "g \<in> set q"
    and "int (count_slots_in_row S i) < snd g"
  shows "g \<in> set q'"
  using assms(1)
proof (cases rule: loop_body_cases)
  case skip
  then show ?thesis using assms(2) by simp
next
  case (place j)
  have "g \<noteq> q ! j" using place(3) assms(3) by auto
  then have "g \<in> set (pop_rest q j)" using mem_pop_rest[OF assms(2) place(2)] by simp
  then show ?thesis using place_candidate_queue[OF place(5)] by auto
qed

lemma while_loop_keeps_oversize:
  assumes run: "while_loop S 0 q [] = Some (Inr (fa, lo))" and g: "g \<in> set q"
    and cap: "\<forall>i<length S. int (count_slots_in_row S i) < snd g"
  shows "g \<in> set lo"
proof -
  have "\<exists>i'. g \<in> set lo \<and> loop_body S i' lo fa = Exit"
  proof (rule while_loop_rule[where I = "\<lambda>i q fa. g \<in> set q", OF run g])
    fix i1 q1 fa1 i2 q2 fa2
    assume inv: "g \<in> set q1" and body: "loop_body S i1 q1 fa1 = Continue i2 q2 fa2"
    have "i1 < length S" using loop_body_Continue_D[OF body] by simp
    then show "g \<in> set q2" using loop_body_keeps_oversize[OF body inv] cap by simp
  qed
  then show ?thesis by blast
qed

lemma eight_rows_capacity:
  assumes "i < length (valid_slots [''A'', ''B'', ''C'', ''D'', ''E'', ''F'', ''G'', ''H''] 2)"
  shows "count_slots_in_row (valid_slots [''A'', ''B'', ''C'', ''D'', ''E'', ''F'', ''G'', ''H''] 2) i \<le> 11"
proof -
  have "distinct [''A'', ''B'', ''C'', ''D'', ''E'', ''F'', ''G'', ''H'']" by simp
  from count_slots_valid_le[OF this assms] show ?thesis by simp
qed

lemma plate_pass:
  assumes reps: "\<forall>g\<in>set q. 1 \<le> snd g" and g: "g \<in> set q" and big: "11 < snd g"
    and rows: "rows layout = [''A'', ''B'', ''C'', ''D'', ''E'', ''F'', ''G'', ''H'']"
  shows "\<exists>lo layout'. assign_samples layout q 2 = Some (Inr (lo, layout')) \<and>
           g \<in> set lo \<and> (\<forall>g\<in>set lo. 1 \<le> snd g)"
proof -
  let ?S = "valid_slots [''A'', ''B'', ''C'', ''D'', ''E'', ''F'', ''G'', ''H''] 2"
  from while_loop_total[OF reps, of 0 ?S "[]"] obtain fa lo where
    run: "while_loop ?S 0 q [] = Some (Inr (fa, lo))" and reps': "\<forall>g\<in>set lo. 1 \<le> snd g" by auto
  have "\<forall>i<length ?S. int (count_slots_in_row ?S i) < snd g"
    using eight_rows_capacity big by fastforce
  from while_loop_keeps_oversize[OF run g this] have "g \<in> set lo" .
  moreover have "assign_samples layout q 2 = Some (Inr (lo, render_assignments_linear layout fa))"
    by (simp add: assign_samples_def rows run)
  ultimately show ?thesis using reps' by blast
qed

lemma init_default_rows:
  "\<exists>l. PlateLayout_init default_standards = Inr l \<and>
       rows l = [''A'', ''B'', ''C'', ''D'', ''E'', ''F'', ''G'', ''H'']"
  by (simp add: init_default)

lemma plate_loop_diverges:
  assumes "\<forall>g\<in>set q. 1 \<le> snd g" and "g \<in> set q" and "11 < snd g"
  shows "plate_loop n q plates = None"
proof (rule ccontr)
  assume "plate_loop n q plates \<noteq> None"
  then obtain y where run: "plate_loop n q plates = Some y" by auto
  let ?bad = "\<lambda>q. (\<forall>g\<in>set q. 1 \<le> snd g) \<and> (\<exists>g\<in>set q. 11 < snd g)"
  let ?P = "\<lambda>(n::nat) q (plates :: real PlateLayout list) (y :: error + real PlateLayout list). \<not> ?bad q"
  have "?P n q plates y"
  proof (rule plate_loop.raw_induct[where P = ?P, OF _ run])
    fix pl n q plates y
    assume IH: "\<And>n q plates y. pl n q plates = Some y \<Longrightarrow> ?P n q plates y"
      and eq: "(if q = [] then Some (Inr plates)
                else case PlateLayout_init default_standards of
                  Inl e \<Rightarrow> Some (Inl e)
                | Inr layout \<Rightarrow>
                    (case assign_samples layout q 2 of
                       None \<Rightarrow> None
                     | Some (Inl e) \<Rightarrow> Some (Inl e)
                     | Some (Inr (leftovers, layout')) \<Rightarrow>
                         if leftovers = [] then Some (Inr (plates @ [layout']))
                         else pl (n + 1) leftovers (plates @ [layout']))) = Some y"
    show "?P n q plates y"
    proof
      assume bad: "?bad q"
      then obtain g where g: "g \<in> set q" "11 < snd g" by blast
      from init_default_rows obtain l where l: "PlateLayout_init default_standards = Inr l"
        "rows l = [''A'', ''B'', ''C'', ''D'', ''E'', ''F'', ''G'', ''H'']" by blast
      from plate_pass[OF _ g l(2)] bad obtain lo l' where
        pass: "assign_samples l q 2 = Some (Inr (lo, l'))" "g \<in> set lo" "\<forall>g\<in>set lo. 1 \<le> snd g"
        by blast
      have "q \<noteq> []" "lo \<noteq> []" using g(1) pass(2) by auto
      then have "pl (n + 1) lo (plates @ [l']) = Some y" using eq by (simp add: l(1) pass(1))
      from IH[OF this] show False using pass(2,3) g(2) by blast
    qed
  qed
  then show False using assms by blast
qed

subsection \<open>C3: no starvation check\<close>

text \<open>
  C3, as the code has it. Let every group of the queue have a replicate count of at least
  1, and let one group have more than 11 replicates, the number of slots of every row
  from column 2. Then every run of \<^verbatim>\<open>assign_samples\<close> from column 2 on a plate with the
  rows A to H returns that group, whole, among its leftovers: it is never placed. The
  plate loop of \<^verbatim>\<open>main\<close> has no check for a pass without progress and raises no error:
  it never ends, building a new plate on every pass.
\<close>

theorem starvation_never_detected:
  assumes "\<forall>g\<in>set queue. 1 \<le> snd g" and "g \<in> set queue" and "11 < snd g"
  shows "main queue = None \<and>
         (\<forall>layout. rows layout = [''A'', ''B'', ''C'', ''D'', ''E'', ''F'', ''G'', ''H''] \<longrightarrow>
            (\<exists>leftovers layout'.
               assign_samples layout queue 2 = Some (Inr (leftovers, layout')) \<and>
               g \<in> set leftovers \<and> (\<forall>g'\<in>set leftovers. 1 \<le> snd g')))"
proof -
  have "main queue = None" unfolding main_def by (rule plate_loop_diverges[OF assms])
  moreover have "\<exists>leftovers layout'.
               assign_samples layout queue 2 = Some (Inr (leftovers, layout')) \<and>
               g \<in> set leftovers \<and> (\<forall>g'\<in>set leftovers. 1 \<le> snd g')"
    if "rows layout = [''A'', ''B'', ''C'', ''D'', ''E'', ''F'', ''G'', ''H'']" for layout :: "'a PlateLayout"
    using plate_pass[OF assms that] by blast
  ultimately show ?thesis by blast
qed

text \<open>The theorem on a queue of a group of 2 replicates and a group of 12.\<close>

theorem starvation_never_detected_witness:
  "main [([''a''], 2), ([''big''], 12)] = None"
proof -
  have "\<forall>g\<in>set [([''a''], 2), ([''big''], 12::int)]. 1 \<le> snd g" by simp
  moreover have "([''big''], 12) \<in> set [([''a''], 2), ([''big''], 12::int)]" by simp
  moreover have "11 < snd ([''big''], 12::int)" by simp
  ultimately show ?thesis using starvation_never_detected by blast
qed

text \<open>
  The claim as it is worded fails on the queue of one group of 12 replicates: the plate
  loop does not end with an error, it does not end.
\<close>

theorem no_starvation_error:
  "main [([''big''], 12)] = None"
  unfolding main_def by (rule plate_loop_diverges[of _ "([''big''], 12)"]) simp_all

end
